theory Spec2Isabelle
  imports Main "HOL-Library.AList" "HOL-Library.Sublist"
begin

section \<open>Data model of the profile manager (src/src/extension.ts)\<close>

text \<open>
  The closed set of tool identifiers, \<^verbatim>\<open>AIToolType\<close>. The constructors follow the
  order of the keys of \<^verbatim>\<open>CONFIG_MAPPINGS\<close>; \<^verbatim>\<open>'claude-dev'\<close> is written \<open>ClaudeDev\<close>.
\<close>

datatype AIToolType = Cursor | Windsurf | Kilocode | ClaudeDev | Copilot | Other

text \<open>
  A parsed JSON value. A value of \<^verbatim>\<open>configs\<close> is \<^verbatim>\<open>string | object\<close>: the string case is
  \<open>JString\<close>, every other constructor is written with \<^verbatim>\<open>fs.writeJSON\<close>. Numbers are kept
  as integers; all that is read of a number below is whether it is zero.
\<close>

datatype json =
    JNull
  | JBool bool
  | JNumber int
  | JString string
  | JArray "json list"
  | JObject "(string \<times> json) list"

text \<open>
  \<^verbatim>\<open>interface AIProfile\<close>. The \<^verbatim>\<open>configs\<close> object is the list of its entries in the order
  \<^verbatim>\<open>Object.entries\<close> yields them.
\<close>

record AIProfile =
  name :: string
  description :: string
  configs :: "(string \<times> json) list"
  ignorePatterns :: string
  rules :: string
  memoryBank :: string
  aiTool :: AIToolType

text \<open>
  Every error of the source is a JavaScript \<^verbatim>\<open>Error\<close> carrying a message;
  \<^verbatim>\<open>handleError\<close> returns that message.
\<close>

datatype error = Error string

fun handleError :: "error \<Rightarrow> string" where
  "handleError (Error m) = m"

definition tool_name :: "AIToolType \<Rightarrow> string" where
  "tool_name t = (case t of
      Cursor \<Rightarrow> ''cursor'' | Windsurf \<Rightarrow> ''windsurf'' | Kilocode \<Rightarrow> ''kilocode''
    | ClaudeDev \<Rightarrow> ''claude-dev'' | Copilot \<Rightarrow> ''copilot'' | Other \<Rightarrow> ''other'')"

definition CONFIG_MAPPINGS :: "AIToolType \<Rightarrow> string list" where
  "CONFIG_MAPPINGS t = (case t of
      Cursor \<Rightarrow> [''.cursorrules'', ''.cursorignore'', ''.cursor'']
    | Windsurf \<Rightarrow> [''.windsurfrules'', ''.windsurfignore'', ''windsurf.json'', ''.windsurf'']
    | Kilocode \<Rightarrow> [''.ai_config.toml'', ''.pr_agent.toml'', ''.kiloignore'', ''.kilo'']
    | ClaudeDev \<Rightarrow> [''.claude-rules'', ''.claude-ignore'', ''claude-dev.json'', ''.claude'']
    | Copilot \<Rightarrow> [''.github/copilot-instructions.md'', ''.github'']
    | Other \<Rightarrow> [''.aiexclude'', ''.amazonq'', ''devfile.yaml'', ''.gemini'', ''.replit'',
        ''replit.nix'', ''.cody'', ''.clinerules'', ''memory_bank''])"

text \<open>The keys of \<^verbatim>\<open>CONFIG_MAPPINGS\<close> in the order \<^verbatim>\<open>Object.entries\<close> visits them.\<close>

definition all_tools :: "AIToolType list" where
  "all_tools = [Cursor, Windsurf, Kilocode, ClaudeDev, Copilot, Other]"

section \<open>The profile store\<close>

text \<open>
  JavaScript's truthiness of a parsed JSON value: \<^verbatim>\<open>null\<close>, \<^verbatim>\<open>false\<close>, \<^verbatim>\<open>0\<close> and the empty
  string are falsy, everything else, every array and object included, is truthy.
\<close>

fun falsy :: "json \<Rightarrow> bool" where
  "falsy JNull = True"
| "falsy (JBool b) = (\<not> b)"
| "falsy (JNumber n) = (n = 0)"
| "falsy (JString s) = (s = [])"
| "falsy (JArray xs) = False"
| "falsy (JObject kvs) = False"

text \<open>
  The persisted document \<^verbatim>\<open>ai-profiles.json\<close>, as \<^verbatim>\<open>fs.readJSON\<close> sees it: the file is
  missing (or cannot be read), or its text is not JSON, or it parses to a JSON value.
  Nothing in the code checks that the value is an object from profile names to profiles
  (the return type \<^verbatim>\<open>{ [key: string]: AIProfile }\<close> is erased when the program runs), so the
  document may hold any value. A document is kept as the value it parses to: what
  \<^verbatim>\<open>fs.writeJSON\<close> writes for a value is a text that \<^verbatim>\<open>JSON.parse\<close> reads back as that
  value. An object is the list of its own entries in the order the engine lists them.
\<close>

datatype store_doc =
    Missing
  | Unparseable string
  | Parsed json

text \<open>
  \<^verbatim>\<open>getProfiles\<close>: \<^verbatim>\<open>readJSON\<close> throws on a missing or unparseable file and the
  \<^verbatim>\<open>catch\<close> returns \<^verbatim>\<open>{}\<close>; a falsy value is replaced by \<^verbatim>\<open>{}\<close>; any other value is
  returned as it is. The result is a sum so that a failure of the operation would be a
  value \<open>Inl\<close>.
\<close>

fun getProfiles :: "store_doc \<Rightarrow> error + json" where
  "getProfiles Missing = Inr (JObject [])"
| "getProfiles (Unparseable txt) = Inr (JObject [])"
| "getProfiles (Parsed v) = Inr (if falsy v then JObject [] else v)"

text \<open>
  The store as a write sees it: the document, and whether the file system refuses to write
  the file (a missing directory, no permission), with the message of the error it raises
  then. A write that is refused writes nothing; a write that breaks off part-way is not
  modelled.
\<close>

record store =
  document :: store_doc
  write_refused :: "string option"

definition writeJSON :: "json \<Rightarrow> store \<Rightarrow> error + store" where
  "writeJSON v st =
     (case write_refused st of
        Some m \<Rightarrow> Inl (Error m)
      | None \<Rightarrow> Inr (st\<lparr>document := Parsed v\<rparr>))"


text \<open>
  A property name is an array index when it is the decimal numeral, without leading
  zeros, of a number below 4294967295.
\<close>

definition digit :: "char \<Rightarrow> bool" where
  "digit c = (c \<in> set ''0123456789'')"

definition digits_value :: "string \<Rightarrow> int" where
  "digits_value s = foldl (\<lambda>n c. 10 * n + (of_char c - 48)) 0 s"

definition array_index :: "string \<Rightarrow> nat option" where
  "array_index s =
     (if s \<noteq> [] \<and> list_all digit s \<and> (length s = 1 \<or> hd s \<noteq> CHR ''0'')
         \<and> digits_value s < 4294967295
      then Some (nat (digits_value s)) else None)"

text \<open>
  The object literal of \<^verbatim>\<open>createProfile\<close>, and any value of \<^verbatim>\<open>interface AIProfile\<close>, as
  the JSON value that \<^verbatim>\<open>JSON.stringify\<close> writes for it.
\<close>

definition profile_json :: "AIProfile \<Rightarrow> json" where
  "profile_json p = JObject
     [(''name'', JString (name p)), (''description'', JString (description p)),
      (''configs'', JObject (configs p)), (''ignorePatterns'', JString (ignorePatterns p)),
      (''rules'', JString (rules p)), (''memoryBank'', JString (memoryBank p)),
      (''aiTool'', JString (tool_name (aiTool p)))]"

text \<open>\<^verbatim>\<open>xs[i] = v\<close> on an array; the holes of a longer array are written as \<^verbatim>\<open>null\<close>.\<close>

definition set_element :: "json list \<Rightarrow> nat \<Rightarrow> json \<Rightarrow> json list" where
  "set_element xs i v =
     (if i < length xs then xs[i := v] else xs @ replicate (i - length xs) JNull @ [v])"

text \<open>
  \<^verbatim>\<open>profiles[profileName] = profile\<close> on what \<^verbatim>\<open>getProfiles\<close> returned, as far as the
  serialisation that follows shows it. The code of a class is strict.

  On an object an own key is replaced and a new key is added, except \<^verbatim>\<open>__proto__\<close>: when
  that is no own key, the assignment runs the setter inherited from \<^verbatim>\<open>Object.prototype\<close>,
  which changes the prototype of the object and none of its entries. (Where the engine lists
  a new key is not modelled: \<open>AList.update\<close> appends it, the engine lists array indices
  first. Nothing below reads the order of the profiles.)

  On an array the assignment sets an element when the name is an array index, throws a
  RangeError for \<^verbatim>\<open>length\<close>, and otherwise changes the prototype (\<^verbatim>\<open>__proto__\<close>) or creates
  a property that \<^verbatim>\<open>JSON.stringify\<close> does not write. On a number, a string or \<^verbatim>\<open>true\<close> it
  throws a TypeError, except for \<^verbatim>\<open>__proto__\<close>, where the inherited setter does nothing.
  The falsy values are never assigned to; \<^verbatim>\<open>null\<close> is given the TypeError of the engine.
  The text of these messages is abbreviated, and the limits of memory (an array with a
  huge index) are not modelled.
\<close>

fun assign_property :: "json \<Rightarrow> string \<Rightarrow> json \<Rightarrow> error + json" where
  "assign_property (JObject kvs) k v =
     Inr (JObject (if k = ''__proto__'' \<and> map_of kvs k = None then kvs else AList.update k v kvs))"
| "assign_property (JArray xs) k v =
     (if k = ''__proto__'' then Inr (JArray xs)
      else if k = ''length'' then Inl (Error ''Invalid array length'')
      else (case array_index k of
              Some i \<Rightarrow> Inr (JArray (set_element xs i v))
            | None \<Rightarrow> Inr (JArray xs)))"
| "assign_property JNull k v = Inl (Error ''Cannot set properties of null'')"
| "assign_property prim k v =
     (if k = ''__proto__'' then Inr prim
      else Inl (Error ''Cannot create property on a primitive value''))"

text \<open>
  \<^verbatim>\<open>saveProfile\<close>: load, assign the key, write the whole value back; whatever is thrown on
  the way is rethrown as ``Failed to save profile''.
\<close>

definition saveProfile :: "string \<Rightarrow> AIProfile \<Rightarrow> store \<Rightarrow> error + store" where
  "saveProfile profileName profile st =
     (case getProfiles (document st) of
        Inl e \<Rightarrow> Inl (Error (''Failed to save profile: '' @ handleError e))
      | Inr profiles \<Rightarrow>
          (case assign_property profiles profileName (profile_json profile) of
             Inl e \<Rightarrow> Inl (Error (''Failed to save profile: '' @ handleError e))
           | Inr profiles' \<Rightarrow>
               (case writeJSON profiles' st of
                  Inl e \<Rightarrow> Inl (Error (''Failed to save profile: '' @ handleError e))
                | Inr st' \<Rightarrow> Inr st')))"

text \<open>
  \<^verbatim>\<open>createProfile\<close>. The first argument is \<^verbatim>\<open>this.currentWorkspace\<close>, the absolute path of
  the first workspace folder as a list of segments, \<open>None\<close> when no folder is open.
  \<^verbatim>\<open>description || `${aiTool} configuration`\<close> replaces an empty description.
\<close>

definition createProfile ::
  "string list option \<Rightarrow> string \<Rightarrow> string \<Rightarrow> AIToolType \<Rightarrow> store \<Rightarrow> error + store" where
  "createProfile currentWorkspace nm descr tool st =
     (case currentWorkspace of
        None \<Rightarrow> Inl (Error ''No workspace is open'')
      | Some ws \<Rightarrow>
          saveProfile nm
            \<lparr> name = nm,
              description = (if descr = [] then tool_name tool @ '' configuration'' else descr),
              configs = [],
              ignorePatterns = [],
              rules = [],
              memoryBank = [],
              aiTool = tool \<rparr>
            st)"

section \<open>Paths (node's \<^verbatim>\<open>path\<close> module, POSIX flavour)\<close>

text \<open>
  An absolute, normalised path is the list of its segments; the root is \<open>[]\<close>.
  \<open>split_path\<close> is \<^verbatim>\<open>s.split('/')\<close>.
\<close>

type_synonym path = "string list"

fun split_path :: "string \<Rightarrow> string list" where
  "split_path [] = [[]]"
| "split_path (c # cs) =
     (if c = CHR ''/'' then [] # split_path cs
      else (case split_path cs of [] \<Rightarrow> [[c]] | seg # segs \<Rightarrow> (c # seg) # segs))"

text \<open>
  \<^verbatim>\<open>path.join(base, rel)\<close> for an absolute, normalised \<open>base\<close>: the segments of \<open>rel\<close>
  are read from the left; an empty segment and \<^verbatim>\<open>.\<close> are dropped, \<^verbatim>\<open>..\<close> removes the last
  segment collected so far (also one of \<open>base\<close>; at the root it does nothing), any other
  segment is appended. A leading \<^verbatim>\<open>/\<close> of \<open>rel\<close> only yields an empty segment.
\<close>

definition norm_step :: "path \<Rightarrow> string \<Rightarrow> path" where
  "norm_step acc seg =
     (if seg = [] \<or> seg = ''.'' then acc
      else if seg = ''..'' then butlast acc
      else acc @ [seg])"

definition path_join :: "path \<Rightarrow> string \<Rightarrow> path" where
  "path_join base rel = foldl norm_step base (split_path rel)"

text \<open>\<^verbatim>\<open>path.dirname\<close>; the root is its own parent.\<close>

definition dirname :: "path \<Rightarrow> path" where
  "dirname p = butlast p"

text \<open>
  \<^verbatim>\<open>path.join\<close> keeps a trailing separator of its last argument. A path with a
  trailing separator names a directory, so writing a file there fails.
\<close>

definition trailing_slash :: "string \<Rightarrow> bool" where
  "trailing_slash s = (s \<noteq> [] \<and> last s = CHR ''/'')"

section \<open>The file system (\<^verbatim>\<open>fs-extra\<close>)\<close>

text \<open>
  The content of a regular file: text written verbatim by \<^verbatim>\<open>fs.writeFile\<close>, or the text
  \<^verbatim>\<open>JSON.stringify(v, null, 2)\<close> plus a newline that \<^verbatim>\<open>fs.writeJSON(_, v, {spaces: 2})\<close>
  writes, kept as the value \<open>v\<close>.
\<close>

datatype content = Text string | JsonText json

text \<open>
  The file system is the tree below the root directory. A directory lists its entries by
  name; \<open>map_of\<close> reads the listing.
\<close>

datatype node = File content | Dir "(string \<times> node) list"

fun node_at :: "node \<Rightarrow> path \<Rightarrow> node option" where
  "node_at n [] = Some n"
| "node_at (File c) (s # p) = None"
| "node_at (Dir ch) (s # p) = (case map_of ch s of None \<Rightarrow> None | Some c \<Rightarrow> node_at c p)"

text \<open>What \<^verbatim>\<open>stat\<close> and a read would show at a path: nothing, a directory, or a file and its content.\<close>

datatype entry = IsFile content | IsDir

fun kind :: "node \<Rightarrow> entry" where
  "kind (File c) = IsFile c"
| "kind (Dir ch) = IsDir"

definition entry_at :: "node \<Rightarrow> path \<Rightarrow> entry option" where
  "entry_at fs p = map_option kind (node_at fs p)"

definition pathExists :: "node \<Rightarrow> path \<Rightarrow> bool" where
  "pathExists fs p = (node_at fs p \<noteq> None)"

text \<open>
  \<open>put_at p v fs\<close> replaces the subtree at \<open>p\<close> by \<open>v\<close> (\<open>None\<close> unlinks it) when the parent of
  \<open>p\<close> is a directory, and changes nothing otherwise. The root is never unlinked.
\<close>

fun put_at :: "path \<Rightarrow> node option \<Rightarrow> node \<Rightarrow> node" where
  "put_at [] v n = (case v of None \<Rightarrow> n | Some n' \<Rightarrow> n')"
| "put_at (s # p) v (File c) = File c"
| "put_at (s # p) v (Dir ch) =
     (if p = [] then
        Dir (case v of None \<Rightarrow> AList.delete s ch | Some n' \<Rightarrow> AList.update s n' ch)
      else
        (case map_of ch s of
           None \<Rightarrow> Dir ch
         | Some c \<Rightarrow> Dir (AList.update s (put_at p v c) ch)))"

text \<open>\<^verbatim>\<open>fs.remove\<close>: removes a file or a whole directory; a missing path is not an error.\<close>

definition remove :: "path \<Rightarrow> node \<Rightarrow> node" where
  "remove p fs = put_at p None fs"

text \<open>
  \<^verbatim>\<open>fs.ensureDir\<close> (\<^verbatim>\<open>mkdir -p\<close>): creates the missing directories along the path and fails
  when a segment of the path is a regular file. Nothing is created when it fails, since
  every segment above a regular file exists.
\<close>

fun ensureDir :: "path \<Rightarrow> node \<Rightarrow> error + node" where
  "ensureDir [] (File c) = Inl (Error ''EEXIST: file already exists, mkdir'')"
| "ensureDir (s # p) (File c) = Inl (Error ''ENOTDIR: not a directory, mkdir'')"
| "ensureDir [] (Dir ch) = Inr (Dir ch)"
| "ensureDir (s # p) (Dir ch) =
     (case ensureDir p (case map_of ch s of None \<Rightarrow> Dir [] | Some c \<Rightarrow> c) of
        Inl e \<Rightarrow> Inl e
      | Inr c' \<Rightarrow> Inr (Dir (AList.update s c' ch)))"

text \<open>
  \<^verbatim>\<open>fs.writeFile\<close> (and \<^verbatim>\<open>fs.writeJSON\<close>, which serialises and then writes): the parent must
  be a directory and the path itself must not be one; an existing file is replaced.
\<close>

definition writeFile :: "path \<Rightarrow> content \<Rightarrow> node \<Rightarrow> error + node" where
  "writeFile p c fs =
     (case node_at fs (butlast p) of
        None \<Rightarrow> Inl (Error ''ENOENT: no such file or directory, open'')
      | Some (File x) \<Rightarrow> Inl (Error ''ENOTDIR: not a directory, open'')
      | Some (Dir ch) \<Rightarrow>
          (if p = [] then Inl (Error ''EISDIR: illegal operation on a directory, open'')
           else (case node_at fs p of
                   Some (Dir x) \<Rightarrow> Inl (Error ''EISDIR: illegal operation on a directory, open'')
                 | _ \<Rightarrow> Inr (put_at p (Some (File c)) fs))))"

text \<open>
  \<^verbatim>\<open>fs.copy\<close> with its default options (\<^verbatim>\<open>overwrite: true\<close>, \<^verbatim>\<open>errorOnExist: false\<close>).
  \<open>copy_node src dst\<close> copies the tree \<open>src\<close> onto what is at the destination (\<open>dst\<close>) and
  returns what is there afterwards: a file replaces a file, a directory is merged into a
  directory entry by entry in listing order, and a file meeting a directory (or the
  reverse) is an error that stops the copy and keeps what was copied before.
  A directory has one entry per name, the one \<open>map_of\<close> shows: \<open>copy_children seen\<close> passes
  over a pair of the list whose name stands in an earlier pair (\<open>seen\<close>).
\<close>

fun copy_node :: "node \<Rightarrow> node option \<Rightarrow> error option \<times> node option"
  and copy_children ::
    "string list \<Rightarrow> (string \<times> node) list \<Rightarrow> (string \<times> node) list
      \<Rightarrow> error option \<times> (string \<times> node) list"
where
  "copy_node (File c) dst =
     (case dst of
        Some (Dir dch) \<Rightarrow> (Some (Error ''Cannot overwrite directory with non-directory''), dst)
      | _ \<Rightarrow> (None, Some (File c)))"
| "copy_node (Dir ch) dst =
     (case dst of
        Some (File x) \<Rightarrow> (Some (Error ''Cannot overwrite non-directory with directory''), dst)
      | Some (Dir dch) \<Rightarrow> (case copy_children [] ch dch of (e, dch') \<Rightarrow> (e, Some (Dir dch')))
      | None \<Rightarrow> (case copy_children [] ch [] of (e, dch') \<Rightarrow> (e, Some (Dir dch'))))"
| "copy_children seen [] dch = (None, dch)"
| "copy_children seen ((nm, c) # rest) dch =
     (if nm \<in> set seen then copy_children seen rest dch
      else
        (case copy_node c (map_of dch nm) of
           (e, d') \<Rightarrow>
             (let dch' = (case d' of None \<Rightarrow> dch | Some n \<Rightarrow> AList.update nm n dch)
              in (case e of
                    Some x \<Rightarrow> (Some x, dch')
                  | None \<Rightarrow> copy_children (nm # seen) rest dch'))))"

definition copy :: "path \<Rightarrow> path \<Rightarrow> node \<Rightarrow> error option \<times> node" where
  "copy src dst fs =
     (case node_at fs src of
        None \<Rightarrow> (Some (Error ''ENOENT: no such file or directory, lstat''), fs)
      | Some s \<Rightarrow>
          (if src = dst then (Some (Error ''Source and destination must not be the same.''), fs)
           else if kind s = IsDir \<and> prefix src dst
             then (Some (Error ''Cannot copy to a subdirectory of itself''), fs)
           else (case ensureDir (dirname dst) fs of
                   Inl e \<Rightarrow> (Some e, fs)
                 | Inr fs1 \<Rightarrow>
                     (case copy_node s (node_at fs1 dst) of
                        (e, d') \<Rightarrow> (e, put_at dst d' fs1)))))"

section \<open>The manager: detection, backup and switch (\<^verbatim>\<open>class AIConfigManager\<close>)\<close>

text \<open>
  The two nested loops over \<^verbatim>\<open>Object.entries(CONFIG_MAPPINGS)\<close> and the patterns of each
  tool visit this list from left to right whenever the inner loop has no \<^verbatim>\<open>break\<close>.
\<close>

definition all_patterns :: "string list" where
  "all_patterns = concat (map CONFIG_MAPPINGS all_tools)"

text \<open>
  \<^verbatim>\<open>glob(pattern, {cwd})\<close> for a pattern without wildcard characters, which is what every
  entry of \<^verbatim>\<open>CONFIG_MAPPINGS\<close> is: the pattern itself when that path exists below \<open>cwd\<close>,
  no match otherwise.
\<close>

definition glob :: "string \<Rightarrow> path \<Rightarrow> node \<Rightarrow> error + string list" where
  "glob pattern cwd fs = Inr (if pathExists fs (path_join cwd pattern) then [pattern] else [])"

text \<open>
  The inner loop of \<^verbatim>\<open>detectAIConfigurations\<close>: the first pattern with a match ends the
  loop (\<^verbatim>\<open>break\<close>); an error of \<^verbatim>\<open>glob\<close> is logged and the loop goes on.
\<close>

fun detect_patterns :: "path \<Rightarrow> node \<Rightarrow> string list \<Rightarrow> bool" where
  "detect_patterns cwd fs [] = False"
| "detect_patterns cwd fs (pattern # patterns) =
     (case glob pattern cwd fs of
        Inr matches \<Rightarrow> (if length matches > 0 then True else detect_patterns cwd fs patterns)
      | Inl e \<Rightarrow> detect_patterns cwd fs patterns)"

fun detect_tools :: "path \<Rightarrow> node \<Rightarrow> AIToolType list \<Rightarrow> AIToolType list" where
  "detect_tools cwd fs [] = []"
| "detect_tools cwd fs (tool # tools) =
     (if detect_patterns cwd fs (CONFIG_MAPPINGS tool)
      then tool # detect_tools cwd fs tools
      else detect_tools cwd fs tools)"

definition detectAIConfigurations :: "path option \<Rightarrow> node \<Rightarrow> AIToolType list" where
  "detectAIConfigurations currentWorkspace fs =
     (case currentWorkspace of
        None \<Rightarrow> []
      | Some ws \<Rightarrow> detect_tools ws fs all_tools)"

text \<open>
  The name of a backup: \<^verbatim>\<open>new Date().toISOString().replace(/[:.]/g, '-')\<close>. The reading of
  the clock, \<open>now\<close>, is an input of the model.
\<close>

definition backup_stamp :: "string \<Rightarrow> string" where
  "backup_stamp now = map (\<lambda>c. if c = CHR '':'' \<or> c = CHR ''.'' then CHR ''-'' else c) now"

definition backupDir :: "path \<Rightarrow> path" where
  "backupDir ws = path_join ws ''.ai-config-backups''"

definition backupPath :: "path \<Rightarrow> string \<Rightarrow> path" where
  "backupPath ws now = path_join (backupDir ws) (''backup-'' @ backup_stamp now)"

text \<open>The loop of \<^verbatim>\<open>backupCurrentConfig\<close>; the first failing call ends it.\<close>

fun backup_files :: "path \<Rightarrow> path \<Rightarrow> string list \<Rightarrow> node \<Rightarrow> error option \<times> node" where
  "backup_files ws bp [] fs = (None, fs)"
| "backup_files ws bp (configFile # rest) fs =
     (let sourcePath = path_join ws configFile in
      if pathExists fs sourcePath then
        (let destPath = path_join bp configFile in
         case ensureDir (dirname destPath) fs of
           Inl e \<Rightarrow> (Some e, fs)
         | Inr fs1 \<Rightarrow>
             (case copy sourcePath destPath fs1 of
                (Some e, fs2) \<Rightarrow> (Some e, fs2)
              | (None, fs2) \<Rightarrow> backup_files ws bp rest fs2))
      else backup_files ws bp rest fs)"

definition backupCurrentConfig :: "path option \<Rightarrow> string \<Rightarrow> node \<Rightarrow> error option \<times> node" where
  "backupCurrentConfig currentWorkspace now fs =
     (case currentWorkspace of
        None \<Rightarrow> (None, fs)
      | Some ws \<Rightarrow>
          (case ensureDir (backupDir ws) fs of
             Inl e \<Rightarrow> (Some (Error (''Failed to create backup: '' @ handleError e)), fs)
           | Inr fs1 \<Rightarrow>
               (case backup_files ws (backupPath ws now) all_patterns fs1 of
                  (Some e, fs2) \<Rightarrow> (Some (Error (''Failed to create backup: '' @ handleError e)), fs2)
                | (None, fs2) \<Rightarrow> (None, fs2))))"

text \<open>The settings \<^verbatim>\<open>aiConfigSwitcher.*\<close> that \<^verbatim>\<open>switchProfile\<close> reads.\<close>

record settings =
  backupBeforeSwitch :: bool
  showNotifications :: bool

text \<open>``Remove existing config files'': \<^verbatim>\<open>fs.remove\<close> of every catalogued path that exists.\<close>

fun remove_existing :: "path \<Rightarrow> string list \<Rightarrow> node \<Rightarrow> node" where
  "remove_existing ws [] fs = fs"
| "remove_existing ws (configFile # rest) fs =
     (let filePath = path_join ws configFile in
      if pathExists fs filePath then remove_existing ws rest (remove filePath fs)
      else remove_existing ws rest fs)"

text \<open>
  ``Write new config files'': for each entry of \<^verbatim>\<open>profile.configs\<close> the parent directory is
  ensured and the content written, a string verbatim and anything else as JSON.
\<close>

fun file_content :: "json \<Rightarrow> content" where
  "file_content (JString s) = Text s"
| "file_content v = JsonText v"

definition write_under :: "path \<Rightarrow> string \<Rightarrow> content \<Rightarrow> node \<Rightarrow> error + node" where
  "write_under ws fileName c fs =
     (if trailing_slash fileName
      then Inl (Error ''EISDIR: illegal operation on a directory, open'')
      else writeFile (path_join ws fileName) c fs)"

fun write_configs :: "path \<Rightarrow> (string \<times> json) list \<Rightarrow> node \<Rightarrow> error option \<times> node" where
  "write_configs ws [] fs = (None, fs)"
| "write_configs ws ((fileName, v) # rest) fs =
     (let filePath = path_join ws fileName in
      case ensureDir (dirname filePath) fs of
        Inl e \<Rightarrow> (Some e, fs)
      | Inr fs1 \<Rightarrow>
          (case write_under ws fileName (file_content v) fs1 of
             Inl e \<Rightarrow> (Some e, fs1)
           | Inr fs2 \<Rightarrow> write_configs ws rest fs2))"

text \<open>
  ``Write specialized config files'': each of the three texts is written when it is a
  non-empty string.
\<close>

fun write_special :: "path \<Rightarrow> (string \<times> string) list \<Rightarrow> node \<Rightarrow> error option \<times> node" where
  "write_special ws [] fs = (None, fs)"
| "write_special ws ((fileName, txt) # rest) fs =
     (if txt \<noteq> [] then
        (case writeFile (path_join ws fileName) (Text txt) fs of
           Inl e \<Rightarrow> (Some e, fs)
         | Inr fs1 \<Rightarrow> write_special ws rest fs1)
      else write_special ws rest fs)"

definition special_files :: "AIProfile \<Rightarrow> (string \<times> string) list" where
  "special_files profile =
     [(''.rules'', rules profile), (''.aiignore'', ignorePatterns profile),
      (''memory_bank'', memoryBank profile)]"

text \<open>
  The body of the \<^verbatim>\<open>try\<close> block of \<^verbatim>\<open>switchProfile\<close>, from the backup to the last write,
  for a profile of the declared type \<^verbatim>\<open>AIProfile\<close>. The notification shown at the end
  (\<^verbatim>\<open>showNotifications\<close>) does not touch the file system and is left out.
\<close>

definition switch_steps ::
  "settings \<Rightarrow> string \<Rightarrow> path \<Rightarrow> AIProfile \<Rightarrow> node \<Rightarrow> error option \<times> node" where
  "switch_steps config now ws profile fs =
     (case (if backupBeforeSwitch config then backupCurrentConfig (Some ws) now fs else (None, fs)) of
        (Some e, fs1) \<Rightarrow> (Some e, fs1)
      | (None, fs1) \<Rightarrow>
          (case write_configs ws (configs profile) (remove_existing ws all_patterns fs1) of
             (Some e, fs2) \<Rightarrow> (Some e, fs2)
           | (None, fs2) \<Rightarrow> write_special ws (special_files profile) fs2))"

definition quoted :: "string \<Rightarrow> string" where
  "quoted s = [CHR 0x22] @ s @ [CHR 0x22]"

text \<open>
  \<^verbatim>\<open>profiles[profileName]\<close> on what \<^verbatim>\<open>getProfiles\<close> returned. The answer is a JSON value
  (an own entry of an object, an element or the length of an array, a character or the
  length of a string), or a function or object that a built-in prototype provides under
  that name, or \<^verbatim>\<open>undefined\<close>. The names of the built-in prototypes are those of the engine
  of VS Code 1.74, the version the extension asks for (ECMAScript 2022); a later engine has
  more. A string is indexed by its characters.
\<close>

datatype looked = Value json | Builtin | Undefined

definition object_prototype_names :: "string list" where
  "object_prototype_names =
     [''constructor'', ''__defineGetter__'', ''__defineSetter__'', ''hasOwnProperty'',
      ''__lookupGetter__'', ''__lookupSetter__'', ''isPrototypeOf'', ''propertyIsEnumerable'',
      ''toString'', ''valueOf'', ''__proto__'', ''toLocaleString'']"

definition number_prototype_names :: "string list" where
  "number_prototype_names = [''toExponential'', ''toFixed'', ''toPrecision'']"

definition string_prototype_names :: "string list" where
  "string_prototype_names =
     [''anchor'', ''at'', ''big'', ''blink'', ''bold'', ''charAt'', ''charCodeAt'', ''codePointAt'',
      ''concat'', ''endsWith'', ''fontcolor'', ''fontsize'', ''fixed'', ''includes'', ''indexOf'',
      ''italics'', ''lastIndexOf'', ''link'', ''localeCompare'', ''match'', ''matchAll'',
      ''normalize'', ''padEnd'', ''padStart'', ''repeat'', ''replace'', ''replaceAll'', ''search'',
      ''slice'', ''small'', ''split'', ''strike'', ''sub'', ''substr'', ''substring'', ''sup'',
      ''startsWith'', ''trim'', ''trimStart'', ''trimLeft'', ''trimEnd'', ''trimRight'',
      ''toLocaleLowerCase'', ''toLocaleUpperCase'', ''toLowerCase'', ''toUpperCase'']"

definition array_prototype_names :: "string list" where
  "array_prototype_names =
     [''at'', ''concat'', ''copyWithin'', ''fill'', ''find'', ''findIndex'', ''lastIndexOf'', ''pop'',
      ''push'', ''reverse'', ''shift'', ''unshift'', ''slice'', ''sort'', ''splice'', ''includes'',
      ''indexOf'', ''join'', ''keys'', ''entries'', ''values'', ''forEach'', ''filter'', ''flat'',
      ''flatMap'', ''map'', ''every'', ''some'', ''reduce'', ''reduceRight'']"

definition inherited :: "string list \<Rightarrow> string \<Rightarrow> looked" where
  "inherited names k =
     (if k \<in> set names \<or> k \<in> set object_prototype_names then Builtin else Undefined)"

fun get_property :: "json \<Rightarrow> string \<Rightarrow> error + looked" where
  "get_property (JObject kvs) k =
     Inr (case map_of kvs k of Some v \<Rightarrow> Value v | None \<Rightarrow> inherited [] k)"
| "get_property JNull k = Inl (Error ''Cannot read properties of null'')"
| "get_property (JBool b) k = Inr (inherited [] k)"
| "get_property (JNumber n) k = Inr (inherited number_prototype_names k)"
| "get_property (JString s) k =
     Inr (if k = ''length'' then Value (JNumber (int (length s)))
          else (case array_index k of
                  Some i \<Rightarrow> (if i < length s then Value (JString [s ! i]) else Undefined)
                | None \<Rightarrow> inherited string_prototype_names k))"
| "get_property (JArray xs) k =
     Inr (if k = ''length'' then Value (JNumber (int (length xs)))
          else (case array_index k of
                  Some i \<Rightarrow> (if i < length xs then Value (xs ! i) else Undefined)
                | None \<Rightarrow> inherited array_prototype_names k))"

text \<open>\<^verbatim>\<open>!profile\<close> is false for a truthy JSON value and for what a prototype provides.\<close>

fun truthy :: "looked \<Rightarrow> bool" where
  "truthy (Value v) = (\<not> falsy v)"
| "truthy Builtin = True"
| "truthy Undefined = False"

text \<open>
  \<^verbatim>\<open>profile.configs\<close>, \<^verbatim>\<open>profile.rules\<close>, \<^verbatim>\<open>profile.ignorePatterns\<close> and
  \<^verbatim>\<open>profile.memoryBank\<close>, the four properties that \<^verbatim>\<open>switchProfile\<close> reads of what it
  found: an own entry of an object; none of the four names is provided by a
  built-in prototype, or is a property of a string, an array or a function. \<open>None\<close> is
  \<^verbatim>\<open>undefined\<close>.
\<close>

fun field :: "looked \<Rightarrow> string \<Rightarrow> json option" where
  "field (Value (JObject kvs)) k = map_of kvs k"
| "field found k = None"

text \<open>The decimal numeral of a number, \<^verbatim>\<open>String(i)\<close>.\<close>

fun show_nat :: "nat \<Rightarrow> string" where
  "show_nat n =
     (if n < 10 then [char_of (48 + n)] else show_nat (n div 10) @ [char_of (48 + n mod 10)])"

declare show_nat.simps [simp del]

definition indexed :: "json list \<Rightarrow> (string \<times> json) list" where
  "indexed xs = zip (map show_nat [0..<length xs]) xs"

text \<open>
  \<^verbatim>\<open>Object.entries(profile.configs)\<close>: a TypeError (\<open>None\<close>) for \<^verbatim>\<open>undefined\<close> and \<^verbatim>\<open>null\<close>,
  the entries of an object, the indexed elements of an array, the indexed characters of a
  string, and nothing for a number or a boolean.
\<close>

fun entries_of :: "json option \<Rightarrow> (string \<times> json) list option" where
  "entries_of None = None"
| "entries_of (Some JNull) = None"
| "entries_of (Some (JObject es)) = Some es"
| "entries_of (Some (JArray xs)) = Some (indexed xs)"
| "entries_of (Some (JString s)) = Some (indexed (map (\<lambda>c. JString [c]) s))"
| "entries_of (Some (JBool b)) = Some []"
| "entries_of (Some (JNumber n)) = Some []"

text \<open>
  What \<^verbatim>\<open>if (profile.rules) fs.writeFile(path, profile.rules)\<close> does with the property: a
  falsy or missing value is skipped, a non-empty string is written, and for any other
  value \<^verbatim>\<open>fs.writeFile\<close> throws a TypeError before it opens the file (the data must be a
  string or a buffer; the text of the message is abbreviated).
\<close>

datatype field_text = Skip | Write string | Invalid

fun text_of :: "json option \<Rightarrow> field_text" where
  "text_of None = Skip"
| "text_of (Some (JString s)) = (if s = [] then Skip else Write s)"
| "text_of (Some v) = (if falsy v then Skip else Invalid)"

text \<open>``Write specialized config files'' for whatever the three properties hold.\<close>

fun write_fields :: "path \<Rightarrow> (string \<times> field_text) list \<Rightarrow> node \<Rightarrow> error option \<times> node" where
  "write_fields ws [] fs = (None, fs)"
| "write_fields ws ((fileName, Skip) # rest) fs = write_fields ws rest fs"
| "write_fields ws ((fileName, Write txt) # rest) fs =
     (case writeFile (path_join ws fileName) (Text txt) fs of
        Inl e \<Rightarrow> (Some e, fs)
      | Inr fs1 \<Rightarrow> write_fields ws rest fs1)"
| "write_fields ws ((fileName, Invalid) # rest) fs =
     (Some (Error ''The data argument must be of type string or an instance of Buffer''), fs)"

definition text_fields :: "looked \<Rightarrow> (string \<times> field_text) list" where
  "text_fields profile =
     [(''.rules'', text_of (field profile ''rules'')),
      (''.aiignore'', text_of (field profile ''ignorePatterns'')),
      (''memory_bank'', text_of (field profile ''memoryBank''))]"

text \<open>
  The body of the \<^verbatim>\<open>try\<close> block of \<^verbatim>\<open>switchProfile\<close> as it runs, on whatever
  \<^verbatim>\<open>profiles[profileName]\<close> gave: the backup, the clearing, then
  \<^verbatim>\<open>Object.entries(profile.configs)\<close>, which throws when there is no such property, the
  writing of the entries and of the three texts. On the JSON value of a profile of the
  declared type these are the steps of \<open>switch_steps\<close> (lemma \<open>switch_value_profile\<close> below).
\<close>

definition switch_value ::
  "settings \<Rightarrow> string \<Rightarrow> path \<Rightarrow> looked \<Rightarrow> node \<Rightarrow> error option \<times> node" where
  "switch_value config now ws profile fs =
     (case (if backupBeforeSwitch config then backupCurrentConfig (Some ws) now fs else (None, fs)) of
        (Some e, fs1) \<Rightarrow> (Some e, fs1)
      | (None, fs1) \<Rightarrow>
          (case entries_of (field profile ''configs'') of
             None \<Rightarrow>
               (Some (Error ''Cannot convert undefined or null to object''),
                remove_existing ws all_patterns fs1)
           | Some entries \<Rightarrow>
               (case write_configs ws entries (remove_existing ws all_patterns fs1) of
                  (Some e, fs2) \<Rightarrow> (Some e, fs2)
                | (None, fs2) \<Rightarrow> write_fields ws (text_fields profile) fs2)))"

text \<open>
  \<^verbatim>\<open>switchProfile\<close>. The arguments before the profile name are what the method reads from
  its surroundings: the settings, the clock, \<^verbatim>\<open>this.currentWorkspace\<close> and the profile
  document. The result is the error thrown, if any, and the file system left behind.
\<close>

definition switchProfile ::
  "settings \<Rightarrow> string \<Rightarrow> path option \<Rightarrow> store_doc \<Rightarrow> string \<Rightarrow> node \<Rightarrow> error option \<times> node" where
  "switchProfile config now currentWorkspace doc profileName fs =
     (case currentWorkspace of
        None \<Rightarrow> (Some (Error ''No workspace is open''), fs)
      | Some ws \<Rightarrow>
          (case getProfiles doc of
             Inl e \<Rightarrow> (Some e, fs)
           | Inr profiles \<Rightarrow>
               (case get_property profiles profileName of
                  Inl e \<Rightarrow> (Some e, fs)
                | Inr profile \<Rightarrow>
                    if \<not> truthy profile
                    then (Some (Error (''Profile '' @ quoted profileName @ '' not found'')), fs)
                    else
                      (case switch_value config now ws profile fs of
                         (Some e, fs') \<Rightarrow>
                           (Some (Error (''Failed to switch to profile '' @ quoted profileName
                                          @ '': '' @ handleError e)), fs')
                       | (None, fs') \<Rightarrow> (None, fs')))))"

section \<open>A notion for stating what an operation leaves alone\<close>

text \<open>
  \<open>confined r fs fs'\<close>: every path whose entry differs between \<open>fs\<close> and \<open>fs'\<close> lies at or
  below \<open>r\<close>, or is a directory that was missing on the way down to \<open>r\<close>.
\<close>

definition confined :: "path \<Rightarrow> node \<Rightarrow> node \<Rightarrow> bool" where
  "confined r fs fs' \<longleftrightarrow>
     (\<forall>q. entry_at fs' q \<noteq> entry_at fs q \<longrightarrow> prefix r q \<or> (prefix q r \<and> entry_at fs q = None))"

section \<open>Sample inputs\<close>

definition stored_profile :: AIProfile where
  "stored_profile = \<lparr> name = ''react'', description = ''hooks'',
      configs = [(''.cursorrules'', JString ''use hooks'')], ignorePatterns = ''dist'',
      rules = ''be brief'', memoryBank = ''notes'', aiTool = Cursor \<rparr>"

definition sample_ws :: path where
  "sample_ws = [''home'', ''proj'']"

definition sample_now :: string where
  "sample_now = ''2024-12-16T10:00:00.000Z''"

definition sample_fs :: node where
  "sample_fs = Dir [(''home'', Dir [(''proj'', Dir
      [(''.cursorrules'', File (Text ''old rules'')),
       (''.github'', Dir [(''workflows'', Dir [(''ci.yml'', File (Text ''build''))])]),
       (''README.md'', File (Text ''readme'')),
       (''src'', Dir [(''main.ts'', File (Text ''code''))])])])]"

definition cursor_profile :: AIProfile where
  "cursor_profile = \<lparr> name = ''react-cursor'', description = ''cursor setup'',
      configs = [(''.cursorrules'', JString ''use hooks''), (''notes/todo.md'', JString ''todo'')],
      ignorePatterns = ''dist'', rules = ''be brief'', memoryBank = [], aiTool = Cursor \<rparr>"

definition windsurf_profile :: AIProfile where
  "windsurf_profile = \<lparr> name = ''surf'', description = ''windsurf setup'',
      configs = [(''.windsurfrules'', JString ''flow''), (''windsurf.json'', JObject [(''v'', JNumber 1)])],
      ignorePatterns = [], rules = [], memoryBank = [], aiTool = Windsurf \<rparr>"

definition escaping_profile :: AIProfile where
  "escaping_profile = \<lparr> name = ''escape'', description = [],
      configs = [(''../outside.txt'', JString ''x'')],
      ignorePatterns = [], rules = [], memoryBank = [], aiTool = Other \<rparr>"

definition absolute_profile :: AIProfile where
  "absolute_profile = \<lparr> name = ''abs'', description = [],
      configs = [(''/etc/rules.txt'', JString ''x'')],
      ignorePatterns = [], rules = [], memoryBank = [], aiTool = Other \<rparr>"

definition sample_profiles :: "(string \<times> json) list" where
  "sample_profiles =
     [(''react-cursor'', profile_json cursor_profile), (''surf'', profile_json windsurf_profile),
      (''escape'', profile_json escaping_profile), (''abs'', profile_json absolute_profile)]"

definition sample_doc :: store_doc where
  "sample_doc = Parsed (JObject sample_profiles)"

definition sample_store :: store where
  "sample_store = \<lparr> document = Parsed (JObject [(''react'', profile_json stored_profile)]),
      write_refused = None \<rparr>"

definition backup_on :: settings where
  "backup_on = \<lparr> backupBeforeSwitch = True, showNotifications = False \<rparr>"

definition backup_off :: settings where
  "backup_off = \<lparr> backupBeforeSwitch = False, showNotifications = False \<rparr>"

definition clash_fs :: node where
  "clash_fs = Dir [(''home'', Dir [(''proj'', Dir
      [(''.cursorrules'', File (Text ''old rules'')),
       (''.cursor'', Dir [(''rules'', Dir [(''a.md'', File (Text ''always''))])]),
       (''.ai-config-backups'', Dir [(''backup-2024-12-16T10-00-00-000Z'', Dir
          [(''.cursor'', File (Text ''legacy''))])]),
       (''README.md'', File (Text ''readme''))])])]"

definition only_cursorrules_fs :: node where
  "only_cursorrules_fs = Dir [(''home'', Dir [(''proj'', Dir
      [(''.cursorrules'', File (Text ''use hooks''))])])]"

definition bank_fs :: node where
  "bank_fs = Dir [(''home'', Dir [(''proj'', Dir
      [(''memory_bank'', Dir [(''a.md'', File (Text ''x''))])])])]"

definition bank_profile :: AIProfile where
  "bank_profile = \<lparr> name = ''bank'', description = [], configs = [],
      ignorePatterns = [], rules = [], memoryBank = ''remember'', aiTool = Other \<rparr>"

definition bank_doc :: store_doc where
  "bank_doc = Parsed (JObject [(''bank'', profile_json bank_profile)])"

definition sample_later :: string where
  "sample_later = ''2024-12-16T10:05:00.000Z''"

definition after_first :: node where
  "after_first = snd (switchProfile backup_on sample_now (Some sample_ws) sample_doc ''react-cursor'' sample_fs)"

section \<open>Properties of the store\<close>

lemma getProfiles_truthy:
  "getProfiles doc = Inr v \<Longrightarrow> \<not> falsy v"
  by (cases doc) (auto split: if_splits)

lemma getProfiles_discards:
  assumes "doc = Unparseable txt \<or> (doc = Parsed v \<and> falsy v)"
  shows "getProfiles doc = Inr (JObject [])"
  using assms by auto

lemma saveProfile_on_object:
  assumes "getProfiles (document st) = Inr (JObject kvs)"
  shows "saveProfile n p st =
           (case write_refused st of
              Some m \<Rightarrow> Inl (Error (''Failed to save profile: '' @ m))
            | None \<Rightarrow>
                Inr (st\<lparr>document := Parsed (JObject
                  (if n = ''__proto__'' \<and> map_of kvs n = None then kvs
                   else AList.update n (profile_json p) kvs))\<rparr>))"
  using assms by (simp add: saveProfile_def writeJSON_def split: option.splits)

text \<open>
  Saving a profile under the name \<^verbatim>\<open>__proto__\<close> in a mapping that has no such entry
  succeeds and stores nothing. Saving into a document that holds a number fails; saving
  into one that holds an array sets an element when the name is an array index.
\<close>

lemma saveProfile_examples:
  "saveProfile ''__proto__'' stored_profile sample_store = Inr sample_store
   \<and> saveProfile ''react'' stored_profile \<lparr>document = Parsed (JNumber 42), write_refused = None\<rparr>
       = Inl (Error ''Failed to save profile: Cannot create property on a primitive value'')
   \<and> saveProfile ''2'' stored_profile \<lparr>document = Parsed (JArray [JNumber 1]), write_refused = None\<rparr>
       = Inr \<lparr>document = Parsed (JArray [JNumber 1, JNull, profile_json stored_profile]),
              write_refused = None\<rparr>"
  by code_simp

text \<open>
  C2, as stated, fails: a document whose text is not JSON does not make \<open>getProfiles\<close>
  fail; the \<^verbatim>\<open>catch\<close> turns it into the empty mapping. Nor does a document that holds
  the array \<^verbatim>\<open>[1]\<close>, which is valid JSON and no mapping of profiles: it is returned as it
  is.
\<close>

theorem getProfiles_malformed_counterexample:
  "getProfiles (Unparseable ''{ not json'') = Inr (JObject [])
   \<and> \<not> isl (getProfiles (Unparseable ''{ not json''))
   \<and> getProfiles (Parsed (JArray [JNumber 1])) = Inr (JArray [JNumber 1])
   \<and> \<not> isl (getProfiles (Parsed (JArray [JNumber 1])))"
  by simp

text \<open>
  C2, amended: \<open>getProfiles\<close> raises no error on any document. A document that parses to a
  value is returned as that value, whether or not it is a mapping of profiles, except that
  a falsy value is replaced by the empty mapping. For a document \<open>doc\<close> whose text is not
  JSON, or that parses to a falsy value, \<open>getProfiles\<close> returns the empty mapping, and the
  next \<open>saveProfile\<close> that the file system accepts replaces the document by a mapping that
  holds the saved profile only (by the empty mapping when the name of the profile is
  \<^verbatim>\<open>__proto__\<close>), so that what the document held is discarded without a report; a
  \<open>saveProfile\<close> that the file system refuses fails and leaves the document in place.
\<close>

theorem getProfiles_never_fails:
  assumes "doc = Unparseable txt \<or> (doc = Parsed v \<and> falsy v)"
  shows "\<not> isl (getProfiles any)
       \<and> getProfiles (Parsed w) = Inr (if falsy w then JObject [] else w)
       \<and> getProfiles doc = Inr (JObject [])
       \<and> saveProfile nm p \<lparr>document = doc, write_refused = None\<rparr>
           = Inr \<lparr>document = Parsed (JObject (if nm = ''__proto__'' then [] else [(nm, profile_json p)])),
                  write_refused = None\<rparr>
       \<and> saveProfile nm p \<lparr>document = doc, write_refused = Some m\<rparr>
           = Inl (Error (''Failed to save profile: '' @ m))"
proof -
  have a: "\<not> isl (getProfiles any)" by (cases any) simp_all
  have b: "getProfiles (Parsed w) = Inr (if falsy w then JObject [] else w)" by simp
  have c: "getProfiles doc = Inr (JObject [])" by (rule getProfiles_discards [OF assms])
  have d: "saveProfile nm p \<lparr>document = doc, write_refused = None\<rparr>
           = Inr \<lparr>document = Parsed (JObject (if nm = ''__proto__'' then [] else [(nm, profile_json p)])),
                  write_refused = None\<rparr>"
    using saveProfile_on_object [of "\<lparr>document = doc, write_refused = None\<rparr>" "[]" nm p] c
    by simp
  have e: "saveProfile nm p \<lparr>document = doc, write_refused = Some m\<rparr>
           = Inl (Error (''Failed to save profile: '' @ m))"
    using saveProfile_on_object [of "\<lparr>document = doc, write_refused = Some m\<rparr>" "[]" nm p] c
    by simp
  from a b c d e show ?thesis by (intro conjI)
qed

theorem getProfiles_never_fails_witness:
  "falsy (JNumber 0)
   \<and> \<not> isl (getProfiles (Parsed (JString ''abc'')))
   \<and> getProfiles (Parsed (JString ''abc'')) = Inr (JString ''abc'')
   \<and> getProfiles (Parsed (JNumber 0)) = Inr (JObject [])
   \<and> saveProfile ''react'' stored_profile \<lparr>document = Parsed (JNumber 0), write_refused = None\<rparr>
       = Inr \<lparr>document = Parsed (JObject [(''react'', profile_json stored_profile)]),
              write_refused = None\<rparr>
   \<and> saveProfile ''react'' stored_profile
         \<lparr>document = Parsed (JNumber 0), write_refused = Some ''EACCES: permission denied''\<rparr>
       = Inl (Error ''Failed to save profile: EACCES: permission denied'')"
proof -
  have h: "Parsed (JNumber 0) = Unparseable [] \<or> (Parsed (JNumber 0) = Parsed (JNumber 0) \<and> falsy (JNumber 0))"
    by simp
  from getProfiles_never_fails [OF h, where any = "Parsed (JString ''abc'')" and w = "JString ''abc''"
      and nm = "''react''" and p = stored_profile and m = "''EACCES: permission denied''"]
  show ?thesis by simp
qed


text \<open>
  C10, as stated, fails: with no workspace folder open, \<open>createProfile\<close> of a name that is in
  the store throws ``No workspace is open'' and the stored record stays as it is.
\<close>

theorem createProfile_counterexample:
  "getProfiles (document sample_store) = Inr (JObject [(''react'', profile_json stored_profile)])
   \<and> map_of [(''react'', profile_json stored_profile)] ''react'' = Some (profile_json stored_profile)
   \<and> createProfile None ''react'' [] Windsurf sample_store = Inl (Error ''No workspace is open'')"
  by (simp add: sample_store_def createProfile_def profile_json_def)

text \<open>
  C10, amended: when the name \<open>n\<close> is an entry of the stored mapping, \<open>createProfile\<close> with a
  workspace folder open, and with the file system accepting the write, replaces the entry by
  a fresh profile of that name and tool with no files and empty texts; what was stored under
  \<open>n\<close> is gone, and every other name keeps its record. With no workspace folder open it
  throws ``No workspace is open'', and when the file system refuses the write it throws
  ``Failed to save profile''; in both cases the store is not changed.
\<close>

theorem createProfile_replaces:
  assumes "getProfiles (document st) = Inr (JObject profiles)" and "map_of profiles n = Some old"
  shows "createProfile None n descr tool st = Inl (Error ''No workspace is open'')
       \<and> (\<exists>fresh.
             name fresh = n \<and> aiTool fresh = tool
           \<and> description fresh = (if descr = [] then tool_name tool @ '' configuration'' else descr)
           \<and> configs fresh = [] \<and> rules fresh = [] \<and> ignorePatterns fresh = []
           \<and> memoryBank fresh = []
           \<and> createProfile (Some ws) n descr tool st =
               (case write_refused st of
                  Some m \<Rightarrow> Inl (Error (''Failed to save profile: '' @ m))
                | None \<Rightarrow>
                    Inr (st\<lparr>document := Parsed (JObject (AList.update n (profile_json fresh) profiles))\<rparr>))
           \<and> map_of (AList.update n (profile_json fresh) profiles)
               = (map_of profiles)(n \<mapsto> profile_json fresh))"
proof -
  let ?fresh = "\<lparr> name = n,
      description = (if descr = [] then tool_name tool @ '' configuration'' else descr),
      configs = [], ignorePatterns = [], rules = [], memoryBank = [], aiTool = tool \<rparr>"
  have a: "createProfile None n descr tool st = Inl (Error ''No workspace is open'')"
    by (simp add: createProfile_def)
  have "createProfile (Some ws) n descr tool st = saveProfile n ?fresh st"
    by (simp add: createProfile_def)
  also have "\<dots> = (case write_refused st of
                  Some m \<Rightarrow> Inl (Error (''Failed to save profile: '' @ m))
                | None \<Rightarrow>
                    Inr (st\<lparr>document := Parsed (JObject (AList.update n (profile_json ?fresh) profiles))\<rparr>))"
    using assms(2) by (simp add: saveProfile_on_object [OF assms(1)])
  finally have b: "createProfile (Some ws) n descr tool st =
      (case write_refused st of
         Some m \<Rightarrow> Inl (Error (''Failed to save profile: '' @ m))
       | None \<Rightarrow>
           Inr (st\<lparr>document := Parsed (JObject (AList.update n (profile_json ?fresh) profiles))\<rparr>))" .
  have c: "map_of (AList.update n (profile_json ?fresh) profiles)
             = (map_of profiles)(n \<mapsto> profile_json ?fresh)"
    by (simp add: update_conv')
  have "name ?fresh = n \<and> aiTool ?fresh = tool
      \<and> description ?fresh = (if descr = [] then tool_name tool @ '' configuration'' else descr)
      \<and> configs ?fresh = [] \<and> rules ?fresh = [] \<and> ignorePatterns ?fresh = []
      \<and> memoryBank ?fresh = []"
    by simp
  with b c have "\<exists>fresh.
             name fresh = n \<and> aiTool fresh = tool
           \<and> description fresh = (if descr = [] then tool_name tool @ '' configuration'' else descr)
           \<and> configs fresh = [] \<and> rules fresh = [] \<and> ignorePatterns fresh = []
           \<and> memoryBank fresh = []
           \<and> createProfile (Some ws) n descr tool st =
               (case write_refused st of
                  Some m \<Rightarrow> Inl (Error (''Failed to save profile: '' @ m))
                | None \<Rightarrow>
                    Inr (st\<lparr>document := Parsed (JObject (AList.update n (profile_json fresh) profiles))\<rparr>))
           \<and> map_of (AList.update n (profile_json fresh) profiles)
               = (map_of profiles)(n \<mapsto> profile_json fresh)"
    by (intro exI [of _ ?fresh]) simp
  with a show ?thesis by (intro conjI)
qed

theorem createProfile_replaces_witness:
  "getProfiles (document sample_store) = Inr (JObject [(''react'', profile_json stored_profile)])
   \<and> map_of [(''react'', profile_json stored_profile)] ''react'' = Some (profile_json stored_profile)
   \<and> configs stored_profile \<noteq> [] \<and> rules stored_profile \<noteq> []
   \<and> write_refused sample_store = None
   \<and> createProfile (Some sample_ws) ''react'' [] Windsurf sample_store =
       Inr (sample_store\<lparr>document := Parsed (JObject
         [(''react'', profile_json \<lparr> name = ''react'', description = ''windsurf configuration'',
             configs = [], ignorePatterns = [], rules = [], memoryBank = [], aiTool = Windsurf \<rparr>)])\<rparr>)"
proof -
  have h1: "getProfiles (document sample_store) = Inr (JObject [(''react'', profile_json stored_profile)])"
    by (simp add: sample_store_def profile_json_def)
  have h2: "map_of [(''react'', profile_json stored_profile)] ''react'' = Some (profile_json stored_profile)"
    by simp
  have h3: "configs stored_profile \<noteq> [] \<and> rules stored_profile \<noteq> []"
    by (simp add: stored_profile_def)
  have h4: "write_refused sample_store = None" by (simp add: sample_store_def)
  from createProfile_replaces [OF h1 h2, of "[]" Windsurf sample_ws]
  obtain fresh where f: "name fresh = ''react''" "aiTool fresh = Windsurf"
      "description fresh = tool_name Windsurf @ '' configuration''"
      "configs fresh = []" "rules fresh = []" "ignorePatterns fresh = []" "memoryBank fresh = []"
    and c: "createProfile (Some sample_ws) ''react'' [] Windsurf sample_store =
       Inr (sample_store\<lparr>document := Parsed (JObject
         (AList.update ''react'' (profile_json fresh) [(''react'', profile_json stored_profile)]))\<rparr>)"
    using h4 by auto
  from f have "profile_json fresh = profile_json \<lparr> name = ''react'', description = ''windsurf configuration'',
             configs = [], ignorePatterns = [], rules = [], memoryBank = [], aiTool = Windsurf \<rparr>"
    by (simp add: profile_json_def tool_name_def)
  with c h1 h2 h3 h4 show ?thesis by simp
qed

section \<open>The file system seen path by path\<close>

lemma node_at_append:
  "node_at fs (p @ q) = (case node_at fs p of None \<Rightarrow> None | Some n \<Rightarrow> node_at n q)"
proof (induction p arbitrary: fs)
  case Nil
  show ?case by simp
next
  case (Cons s p)
  show ?case by (cases fs) (simp_all add: Cons.IH split: option.splits)
qed

lemma node_at_File: "node_at (File c) p = (if p = [] then Some (File c) else None)"
  by (cases p) simp_all

lemma entry_at_Nil: "entry_at fs [] = Some (kind fs)"
  by (simp add: entry_at_def)

lemma entry_at_prefix_dir:
  assumes "entry_at fs (p @ q) \<noteq> None" and "q \<noteq> []"
  shows "entry_at fs p = Some IsDir"
proof -
  from assms obtain n where n: "node_at fs p = Some n" and "node_at n q \<noteq> None"
    by (auto simp: entry_at_def node_at_append split: option.splits)
  with \<open>q \<noteq> []\<close> have "kind n = IsDir"
    by (cases n) (simp_all add: node_at_File)
  with n show ?thesis by (simp add: entry_at_def)
qed

lemma entry_at_strict_prefix:
  assumes "entry_at fs p \<noteq> None" and "prefix q p" and "q \<noteq> p"
  shows "entry_at fs q = Some IsDir"
proof -
  from assms(2,3) obtain r where "p = q @ r" and "r \<noteq> []"
    by (auto simp: prefix_def)
  with assms(1) show ?thesis by (auto intro: entry_at_prefix_dir)
qed

lemma map_of_delete_apply: "map_of (AList.delete k al) k' = (if k' = k then None else map_of al k')"
  by (simp add: delete_conv')

lemma map_of_update_apply: "map_of (AList.update k v al) k' = (if k' = k then Some v else map_of al k')"
  by (simp add: update_conv')

lemma kind_put_at: "p \<noteq> [] \<Longrightarrow> kind (put_at p v fs) = kind fs"
  by (cases p; cases fs) (simp_all split: option.splits)

lemma entry_at_put_at_frame:
  "\<not> prefix p q \<Longrightarrow> entry_at (put_at p v fs) q = entry_at fs q"
proof (induction p arbitrary: q fs)
  case Nil
  then show ?case by simp
next
  case (Cons s p)
  show ?case
  proof (cases fs)
    case (File c)
    then show ?thesis by simp
  next
    case (Dir ch)
    show ?thesis
    proof (cases q)
      case Nil
      then show ?thesis using Dir by (simp add: entry_at_def split: option.splits)
    next
      case (Cons t q')
      show ?thesis
      proof (cases "t = s")
        case False
        then show ?thesis using Dir Cons
          by (simp add: entry_at_def map_of_delete_apply map_of_update_apply split: option.splits)
      next
        case True
        with Cons Cons.prems have np: "\<not> prefix p q'" by simp
        then have "p \<noteq> []" by auto
        have "entry_at (put_at p v c) q' = entry_at c q'" for c
          using Cons.IH [OF np] .
        then show ?thesis using Dir Cons True \<open>p \<noteq> []\<close>
          by (simp add: entry_at_def map_of_update_apply split: option.splits)
      qed
    qed
  qed
qed

lemma node_at_put_at_hit:
  "p \<noteq> [] \<Longrightarrow> entry_at fs (butlast p) = Some IsDir \<Longrightarrow>
   node_at (put_at p v fs) (p @ r) = (case v of None \<Rightarrow> None | Some n \<Rightarrow> node_at n r)"
proof (induction p arbitrary: fs)
  case Nil
  then show ?case by simp
next
  case (Cons s p)
  show ?case
  proof (cases fs)
    case (File c)
    with Cons.prems show ?thesis by (cases p) (simp_all add: entry_at_def)
  next
    case (Dir ch)
    show ?thesis
    proof (cases "p = []")
      case True
      then show ?thesis using Dir
        by (simp add: map_of_delete_apply map_of_update_apply split: option.splits)
    next
      case False
      with Cons.prems Dir obtain c where c: "map_of ch s = Some c" and "entry_at c (butlast p) = Some IsDir"
        by (auto simp: entry_at_def split: option.splits)
      with Cons.IH [OF False, of c] show ?thesis using Dir False
        by (simp add: map_of_update_apply)
    qed
  qed
qed

lemma put_at_miss:
  "p \<noteq> [] \<Longrightarrow> entry_at fs (butlast p) \<noteq> Some IsDir \<Longrightarrow> entry_at (put_at p v fs) q = entry_at fs q"
proof (induction p arbitrary: fs q)
  case Nil
  then show ?case by simp
next
  case (Cons s p)
  show ?case
  proof (cases fs)
    case (File c)
    then show ?thesis by simp
  next
    case (Dir ch)
    with Cons.prems have ne: "p \<noteq> []" by (auto simp: entry_at_def)
    show ?thesis
    proof (cases "map_of ch s")
      case None
      then show ?thesis using Dir ne by simp
    next
      case (Some c)
      with Cons.prems Dir ne have "entry_at c (butlast p) \<noteq> Some IsDir"
        by (auto simp: entry_at_def)
      from Cons.IH [OF ne this] have IH: "entry_at (put_at p v c) q' = entry_at c q'" for q' .
      show ?thesis
      proof (cases q)
        case Nil
        then show ?thesis using Dir by (simp add: entry_at_def split: option.splits)
      next
        case (Cons t q')
        then show ?thesis using Dir Some ne IH [of q']
          by (simp add: entry_at_def map_of_update_apply)
      qed
    qed
  qed
qed


lemma entry_at_remove:
  "entry_at (remove p fs) q = (if p \<noteq> [] \<and> prefix p q then None else entry_at fs q)"
proof (cases "p \<noteq> [] \<and> prefix p q")
  case False
  then show ?thesis
    by (cases "p = []") (simp_all add: remove_def entry_at_put_at_frame)
next
  case True
  then obtain r where q: "q = p @ r" and ne: "p \<noteq> []" by (auto simp: prefix_def)
  show ?thesis
  proof (cases "entry_at fs (butlast p) = Some IsDir")
    case True
    from node_at_put_at_hit [OF ne True, of None r] show ?thesis
      using q ne by (simp add: remove_def entry_at_def)
  next
    case False
    have "entry_at fs q = None"
    proof (rule ccontr)
      assume "entry_at fs q \<noteq> None"
      moreover have "q = butlast p @ (last p # r)"
        using q ne by simp
      then have "prefix (butlast p) q" by (metis prefixI)
      moreover have "length (butlast p) < length q"
        using q ne by (cases p) simp_all
      then have "butlast p \<noteq> q" by auto
      ultimately have "entry_at fs (butlast p) = Some IsDir"
        by (rule entry_at_strict_prefix)
      with False show False by simp
    qed
    with put_at_miss [OF ne False, of None q] show ?thesis
      using True by (simp add: remove_def)
  qed
qed

lemma entry_at_ensureDir:
  "ensureDir p fs = Inr fs' \<Longrightarrow>
   entry_at fs' q = (if prefix q p \<and> entry_at fs q = None then Some IsDir else entry_at fs q)"
proof (induction p fs arbitrary: fs' q rule: ensureDir.induct)
  case (1 c)
  then show ?case by simp
next
  case (2 s p c)
  then show ?case by simp
next
  case (3 ch)
  then show ?case by (auto simp: entry_at_def)
next
  case (4 s p ch)
  let ?c = "case map_of ch s of None \<Rightarrow> Dir [] | Some c \<Rightarrow> c"
  from "4.prems" obtain c' where c': "ensureDir p ?c = Inr c'" and fs': "fs' = Dir (AList.update s c' ch)"
    by (auto split: sum.splits)
  note IH = "4.IH" [OF c']
  show ?case
  proof (cases q)
    case Nil
    then show ?thesis using fs' by (simp add: entry_at_def)
  next
    case (Cons t q')
    show ?thesis
    proof (cases "t = s")
      case False
      then show ?thesis using Cons fs' by (simp add: entry_at_def map_of_update_apply)
    next
      case True
      have "entry_at fs' q = entry_at c' q'"
        using Cons True fs' by (simp add: entry_at_def map_of_update_apply)
      also have "\<dots> = (if prefix q' p \<and> entry_at ?c q' = None then Some IsDir else entry_at ?c q')"
        by (rule IH)
      finally show ?thesis using Cons True
        by (cases "map_of ch s"; cases q') (auto simp: entry_at_def)
    qed
  qed
qed

lemma entry_at_writeFile:
  assumes "writeFile p c fs = Inr fs'"
  shows "entry_at fs' q = (if q = p then Some (IsFile c) else entry_at fs q)"
proof -
  from assms have par: "entry_at fs (butlast p) = Some IsDir" and ne: "p \<noteq> []"
    and nd: "entry_at fs p \<noteq> Some IsDir" and fs': "fs' = put_at p (Some (File c)) fs"
    by (auto simp: writeFile_def entry_at_def split: option.splits node.splits if_splits)
  show ?thesis
  proof (cases "prefix p q")
    case False
    then show ?thesis using fs' by (auto simp: entry_at_put_at_frame)
  next
    case True
    then obtain r where q: "q = p @ r" by (auto simp: prefix_def)
    have "entry_at fs q = None" if "r \<noteq> []"
    proof (rule ccontr)
      assume "entry_at fs q \<noteq> None"
      with entry_at_prefix_dir [of fs p r] q that have "entry_at fs p = Some IsDir" by simp
      with nd show False by simp
    qed
    with node_at_put_at_hit [OF ne par, of "Some (File c)" r] show ?thesis
      using q fs' by (auto simp: entry_at_def node_at_File)
  qed
qed

lemma writeFile_Inr_iff:
  "(\<exists>fs'. writeFile p c fs = Inr fs') \<longleftrightarrow>
     p \<noteq> [] \<and> entry_at fs (butlast p) = Some IsDir \<and> entry_at fs p \<noteq> Some IsDir"
  by (cases "node_at fs (butlast p)"; cases "node_at fs p")
     (auto simp: writeFile_def entry_at_def split: node.splits)

lemma entry_at_copy:
  assumes "copy src dst fs = (e, fs')" and "entry_at fs' q \<noteq> entry_at fs q"
  shows "prefix dst q \<or> (prefix q dst \<and> entry_at fs q = None)"
proof (rule ccontr)
  assume neg: "\<not> ?thesis"
  from assms obtain s fs1 d' where "ensureDir (dirname dst) fs = Inr fs1"
      and fs': "fs' = put_at dst d' fs1"
    by (auto simp: copy_def split: option.splits if_splits sum.splits prod.splits)
  from entry_at_ensureDir [OF this(1), of q] neg
  have "entry_at fs1 q = entry_at fs q"
    by (auto simp: dirname_def dest: prefix_order.trans [OF _ prefixeq_butlast])
  moreover from neg fs' have "entry_at fs' q = entry_at fs1 q"
    by (simp add: entry_at_put_at_frame)
  ultimately show False using assms(2) by simp
qed

lemma confined_refl: "confined r fs fs"
  by (simp add: confined_def)

lemma confined_trans:
  assumes "confined r fs fs1" and "confined r fs1 fs2"
  shows "confined r fs fs2"
  unfolding confined_def
proof (intro allI impI)
  fix q
  assume ch: "entry_at fs2 q \<noteq> entry_at fs q"
  show "prefix r q \<or> (prefix q r \<and> entry_at fs q = None)"
  proof (cases "entry_at fs1 q = entry_at fs q")
    case True
    with ch have "entry_at fs2 q \<noteq> entry_at fs1 q" by simp
    with assms(2) have "prefix r q \<or> (prefix q r \<and> entry_at fs1 q = None)"
      unfolding confined_def by blast
    with True show ?thesis by simp
  next
    case False
    with assms(1) show ?thesis unfolding confined_def by blast
  qed
qed

lemma prefix_comparable:
  "prefix a c \<Longrightarrow> prefix b c \<Longrightarrow> prefix a b \<or> prefix b a"
  by (metis prefix_same_cases)

lemma confined_mono:
  assumes "confined r' fs fs'" and "prefix r r'"
  shows "confined r fs fs'"
  unfolding confined_def
proof (intro allI impI)
  fix q
  assume "entry_at fs' q \<noteq> entry_at fs q"
  with assms(1) consider "prefix r' q" | "prefix q r'" "entry_at fs q = None"
    by (auto simp: confined_def)
  then show "prefix r q \<or> (prefix q r \<and> entry_at fs q = None)"
  proof cases
    case 1
    with assms(2) show ?thesis by (meson prefix_order.trans)
  next
    case 2
    with assms(2) prefix_comparable [of q r' r] show ?thesis by auto
  qed
qed

lemma confined_ensureDir:
  assumes "ensureDir p fs = Inr fs'" and "prefix p r \<or> prefix r p"
  shows "confined r fs fs'"
  unfolding confined_def
proof (intro allI impI)
  fix q
  assume "entry_at fs' q \<noteq> entry_at fs q"
  with entry_at_ensureDir [OF assms(1), of q] have "prefix q p" "entry_at fs q = None"
    by (auto split: if_splits)
  with assms(2) show "prefix r q \<or> (prefix q r \<and> entry_at fs q = None)"
    using prefix_comparable [of q p r] by (auto intro: prefix_order.trans)
qed

lemma confined_writeFile:
  assumes "writeFile p c fs = Inr fs'" and "prefix r p"
  shows "confined r fs fs'"
  using entry_at_writeFile [OF assms(1)] assms(2)
  by (auto simp: confined_def split: if_splits)

lemma confined_remove:
  assumes "prefix r p"
  shows "confined r fs (remove p fs)"
  using assms by (auto simp: confined_def entry_at_remove split: if_splits intro: prefix_order.trans)

lemma confined_copy:
  assumes "copy src dst fs = (e, fs')" and "prefix r dst"
  shows "confined r fs fs'"
proof (rule confined_mono [OF _ assms(2)])
  show "confined dst fs fs'"
    using entry_at_copy [OF assms(1)] by (auto simp: confined_def)
qed

lemma confined_outside:
  assumes "confined r fs fs'" and "entry_at fs r \<noteq> None" and "\<not> prefix r q"
  shows "entry_at fs' q = entry_at fs q"
proof (rule ccontr)
  assume "entry_at fs' q \<noteq> entry_at fs q"
  with assms(1,3) have pq: "prefix q r" and none: "entry_at fs q = None"
    by (auto simp: confined_def)
  from assms(3) pq have "q \<noteq> r" by auto
  from entry_at_strict_prefix [OF assms(2) pq this] none show False by simp
qed

lemma confined_existing:
  assumes "confined r fs fs'" and "entry_at fs q \<noteq> None" and "\<not> prefix r q"
  shows "entry_at fs' q = entry_at fs q"
  using assms by (auto simp: confined_def)

subsection \<open>path_join\<close>

lemma split_path_no_slash: "CHR ''/'' \<notin> set s \<Longrightarrow> split_path s = [s]"
  by (induction s) auto

lemma foldl_norm_step_append:
  "''..'' \<notin> set segs \<Longrightarrow> foldl norm_step (a @ b) segs = a @ foldl norm_step b segs"
  by (induction segs arbitrary: b) (auto simp: norm_step_def)

lemma path_join_no_dotdot:
  "''..'' \<notin> set (split_path k) \<Longrightarrow> path_join ws k = ws @ path_join [] k"
  using foldl_norm_step_append [of "split_path k" ws "[]"] by (simp add: path_join_def)

lemma backup_stamp_no_slash: "CHR ''/'' \<notin> set now \<Longrightarrow> CHR ''/'' \<notin> set (backup_stamp now)"
  by (auto simp: backup_stamp_def)

lemma backupDir_eq: "backupDir ws = ws @ [''.ai-config-backups'']"
  by (simp add: backupDir_def path_join_def norm_step_def)

lemma backupPath_eq:
  assumes "CHR ''/'' \<notin> set now"
  shows "backupPath ws now = backupDir ws @ [''backup-'' @ backup_stamp now]"
proof -
  have "CHR ''/'' \<notin> set (''backup-'' @ backup_stamp now)"
    using backup_stamp_no_slash [OF assms] by simp
  then have "split_path (''backup-'' @ backup_stamp now) = [''backup-'' @ backup_stamp now]"
    by (rule split_path_no_slash)
  then show ?thesis
    by (simp add: backupPath_def path_join_def norm_step_def)
qed

lemma pattern_join:
  "f \<in> set all_patterns \<Longrightarrow> path_join b f = b @ path_join [] f \<and> path_join [] f \<noteq> []"
  unfolding all_patterns_def all_tools_def CONFIG_MAPPINGS_def
  by (auto simp: path_join_def norm_step_def)


subsection \<open>Backup\<close>

lemma butlast_append_prefix: "x \<noteq> [] \<Longrightarrow> prefix b (butlast (b @ x))"
  by (simp add: butlast_append)

lemma confined_backup_files:
  assumes "backup_files ws bp pats fs = (e, fs')" and "set pats \<subseteq> set all_patterns"
  shows "confined bp fs fs'"
  using assms
proof (induction pats arbitrary: fs)
  case Nil
  then show ?case by (simp add: confined_refl)
next
  case (Cons f rest)
  from Cons.prems(2) have f: "f \<in> set all_patterns" and rest: "set rest \<subseteq> set all_patterns"
    by auto
  from pattern_join [OF f, of bp] obtain x where dest: "path_join bp f = bp @ x" and x: "x \<noteq> []"
    by blast
  show ?case
  proof (cases "pathExists fs (path_join ws f)")
    case False
    with Cons.prems(1) have "backup_files ws bp rest fs = (e, fs')" by simp
    from Cons.IH [OF this rest] show ?thesis .
  next
    case True
    show ?thesis
    proof (cases "ensureDir (dirname (path_join bp f)) fs")
      case (Inl err)
      with True Cons.prems(1) have "fs' = fs" by simp
      then show ?thesis by (simp add: confined_refl)
    next
      case (Inr fs1)
      have c1: "confined bp fs fs1"
        by (rule confined_ensureDir [OF Inr]) (simp add: dest dirname_def butlast_append_prefix x)
      obtain e2 fs2 where cp: "copy (path_join ws f) (path_join bp f) fs1 = (e2, fs2)"
        by (cases "copy (path_join ws f) (path_join bp f) fs1")
      have c2: "confined bp fs1 fs2"
        by (rule confined_copy [OF cp]) (simp add: dest)
      show ?thesis
      proof (cases e2)
        case (Some err)
        with True Inr cp Cons.prems(1) have "fs' = fs2" by simp
        with c1 c2 show ?thesis by (auto intro: confined_trans)
      next
        case None
        with True Inr cp Cons.prems(1) have "backup_files ws bp rest fs2 = (e, fs')" by simp
        from Cons.IH [OF this rest] c1 c2 show ?thesis by (auto intro: confined_trans)
      qed
    qed
  qed
qed

lemma confined_backupCurrentConfig:
  assumes "backupCurrentConfig (Some ws) now fs = (e, fs')" and "CHR ''/'' \<notin> set now"
  shows "confined (backupDir ws) fs fs'"
proof (cases "ensureDir (backupDir ws) fs")
  case (Inl err)
  with assms(1) have "fs' = fs" by (simp add: backupCurrentConfig_def)
  then show ?thesis by (simp add: confined_refl)
next
  case (Inr fs1)
  have c1: "confined (backupDir ws) fs fs1"
    by (rule confined_ensureDir [OF Inr]) simp
  obtain e2 fs2 where bf: "backup_files ws (backupPath ws now) all_patterns fs1 = (e2, fs2)"
    by (cases "backup_files ws (backupPath ws now) all_patterns fs1")
  with Inr assms(1) have "fs' = fs2"
    by (cases e2) (simp_all add: backupCurrentConfig_def)
  moreover have "confined (backupDir ws) fs1 fs2"
    by (rule confined_mono [OF confined_backup_files [OF bf]])
       (simp_all add: backupPath_eq [OF assms(2)])
  ultimately show ?thesis using c1 by (auto intro: confined_trans)
qed

subsection \<open>Clearing\<close>

lemma entry_at_below_missing:
  assumes "\<not> pathExists fs p" and "prefix p q"
  shows "entry_at fs q = None"
  using assms by (auto simp: pathExists_def prefix_def entry_at_def node_at_append)

lemma entry_at_remove_existing:
  "entry_at (remove_existing ws pats fs) q =
     (if \<exists>f\<in>set pats. path_join ws f \<noteq> [] \<and> prefix (path_join ws f) q then None
      else entry_at fs q)"
proof (induction pats arbitrary: fs)
  case Nil
  show ?case by simp
next
  case (Cons f rest)
  let ?p = "path_join ws f"
  let ?fs1 = "if pathExists fs ?p then remove ?p fs else fs"
  have step: "remove_existing ws (f # rest) fs = remove_existing ws rest ?fs1"
    by simp
  have one: "entry_at ?fs1 q = (if ?p \<noteq> [] \<and> prefix ?p q then None else entry_at fs q)"
    using entry_at_below_missing [of fs ?p q] by (simp add: entry_at_remove)
  show ?case
    unfolding step Cons.IH one by auto
qed

subsection \<open>Writing\<close>

lemma write_configs_changes:
  assumes "write_configs ws cfgs fs = (e, fs')" and "entry_at fs' q \<noteq> entry_at fs q"
  shows "\<exists>k\<in>fst ` set cfgs. prefix q (path_join ws k) \<and> (q = path_join ws k \<or> entry_at fs q = None)"
  using assms
proof (induction cfgs arbitrary: fs)
  case Nil
  then show ?case by simp
next
  case (Cons kv rest)
  obtain k v where kv: "kv = (k, v)" by (cases kv)
  let ?p = "path_join ws k"
  show ?case
  proof (cases "ensureDir (dirname ?p) fs")
    case (Inl err)
    with Cons.prems kv show ?thesis by simp
  next
    case (Inr fs1)
    have e1: "entry_at fs1 q = (if prefix q (butlast ?p) \<and> entry_at fs q = None then Some IsDir else entry_at fs q)"
      using entry_at_ensureDir [OF Inr] by (simp add: dirname_def)
    have pb: "prefix q (butlast ?p) \<Longrightarrow> prefix q ?p"
      by (meson prefix_order.trans prefixeq_butlast)
    show ?thesis
    proof (cases "write_under ws k (file_content v) fs1")
      case (Inl err)
      with Cons.prems kv Inr have "fs' = fs1" by simp
      with Cons.prems(2) e1 pb show ?thesis
        by (auto simp: kv split: if_splits)
    next
      case w: (Inr fs2)
      then have wf: "writeFile ?p (file_content v) fs1 = Inr fs2"
        by (simp add: write_under_def split: if_splits)
      have e2: "entry_at fs2 q = (if q = ?p then Some (IsFile (file_content v)) else entry_at fs1 q)"
        by (rule entry_at_writeFile [OF wf])
      from Cons.prems(1) kv Inr w have rest: "write_configs ws rest fs2 = (e, fs')" by simp
      show ?thesis
      proof (cases "entry_at fs' q = entry_at fs2 q")
        case True
        with Cons.prems(2) e1 e2 pb show ?thesis
          by (auto simp: kv split: if_splits)
      next
        case False
        from Cons.IH [OF rest False] obtain k' where k': "k' \<in> fst ` set rest"
          and pk': "prefix q (path_join ws k')" and alt: "q = path_join ws k' \<or> entry_at fs2 q = None"
          by blast
        show ?thesis
        proof (cases "q = path_join ws k' \<or> entry_at fs q = None")
          case True
          with k' pk' show ?thesis by auto
        next
          case False
          with alt have "entry_at fs2 q = None" "entry_at fs q \<noteq> None" by auto
          with e1 e2 show ?thesis by (auto split: if_splits)
        qed
      qed
    qed
  qed
qed

lemma write_special_changes:
  assumes "write_special ws sp fs = (e, fs')" and "entry_at fs' q \<noteq> entry_at fs q"
  shows "\<exists>(n, t)\<in>set sp. t \<noteq> [] \<and> q = path_join ws n"
  using assms
proof (induction sp arbitrary: fs)
  case Nil
  then show ?case by simp
next
  case (Cons nt rest)
  obtain n t where nt: "nt = (n, t)" by (cases nt)
  show ?case
  proof (cases "t = []")
    case True
    with Cons.prems nt have "write_special ws rest fs = (e, fs')" by simp
    from Cons.IH [OF this Cons.prems(2)] show ?thesis by auto
  next
    case False
    show ?thesis
    proof (cases "writeFile (path_join ws n) (Text t) fs")
      case (Inl err)
      with Cons.prems nt False show ?thesis by simp
    next
      case (Inr fs1)
      note e1 = entry_at_writeFile [OF Inr, of q]
      from Cons.prems(1) nt False Inr have rest: "write_special ws rest fs1 = (e, fs')" by simp
      show ?thesis
      proof (cases "entry_at fs' q = entry_at fs1 q")
        case True
        with Cons.prems(2) e1 False show ?thesis by (auto simp: nt split: if_splits)
      next
        case ne: False
        from Cons.IH [OF rest ne] show ?thesis by auto
      qed
    qed
  qed
qed


lemma write_configs_content:
  assumes "write_configs ws cfgs fs = (None, fs')"
    and "distinct (map (\<lambda>kv. path_join ws (fst kv)) cfgs)"
    and "(k, v) \<in> set cfgs"
  shows "entry_at fs' (path_join ws k) = Some (IsFile (file_content v))"
  using assms
proof (induction cfgs arbitrary: fs)
  case Nil
  then show ?case by simp
next
  case (Cons kv rest)
  obtain k0 v0 where kv: "kv = (k0, v0)" by (cases kv)
  from Cons.prems(1) kv obtain fs1 fs2 where
        "ensureDir (dirname (path_join ws k0)) fs = Inr fs1"
    and w: "write_under ws k0 (file_content v0) fs1 = Inr fs2"
    and rest: "write_configs ws rest fs2 = (None, fs')"
    by (auto split: sum.splits)
  from w have wf: "writeFile (path_join ws k0) (file_content v0) fs1 = Inr fs2"
    by (simp add: write_under_def split: if_splits)
  from Cons.prems(2) kv have d: "distinct (map (\<lambda>kv. path_join ws (fst kv)) rest)"
    and notin: "path_join ws k0 \<notin> (\<lambda>kv. path_join ws (fst kv)) ` set rest"
    by auto
  show ?case
  proof (cases "(k, v) \<in> set rest")
    case True
    from Cons.IH [OF rest d True] show ?thesis .
  next
    case False
    with Cons.prems(3) kv have eq: "k = k0" "v = v0" by auto
    have here: "entry_at fs2 (path_join ws k0) = Some (IsFile (file_content v0))"
      using entry_at_writeFile [OF wf, of "path_join ws k0"] by simp
    have "entry_at fs' (path_join ws k0) = entry_at fs2 (path_join ws k0)"
    proof (rule ccontr)
      assume "entry_at fs' (path_join ws k0) \<noteq> entry_at fs2 (path_join ws k0)"
      from write_configs_changes [OF rest this] here notin show False
        by force
    qed
    with here eq show ?thesis by simp
  qed
qed

lemma write_special_content:
  assumes "write_special ws sp fs = (None, fs')"
    and "distinct (map (\<lambda>nt. path_join ws (fst nt)) sp)"
    and "(n, t) \<in> set sp" and "t \<noteq> []"
  shows "entry_at fs' (path_join ws n) = Some (IsFile (Text t))"
  using assms
proof (induction sp arbitrary: fs)
  case Nil
  then show ?case by simp
next
  case (Cons nt rest)
  obtain n0 t0 where nt: "nt = (n0, t0)" by (cases nt)
  from Cons.prems(2) nt have d: "distinct (map (\<lambda>nt. path_join ws (fst nt)) rest)"
    and notin: "path_join ws n0 \<notin> (\<lambda>nt. path_join ws (fst nt)) ` set rest"
    by auto
  show ?case
  proof (cases "(n, t) \<in> set rest")
    case True
    show ?thesis
    proof (cases "t0 = []")
      case e: True
      with Cons.prems(1) nt have "write_special ws rest fs = (None, fs')" by simp
      from Cons.IH [OF this d True Cons.prems(4)] show ?thesis .
    next
      case ne: False
      with Cons.prems(1) nt obtain fs1 where "write_special ws rest fs1 = (None, fs')"
        by (auto split: sum.splits)
      from Cons.IH [OF this d True Cons.prems(4)] show ?thesis .
    qed
  next
    case False
    with Cons.prems(3) nt have eq: "n = n0" "t = t0" by auto
    with Cons.prems(1,4) nt obtain fs1 where
      wf: "writeFile (path_join ws n0) (Text t0) fs = Inr fs1"
      and rest: "write_special ws rest fs1 = (None, fs')"
      by (auto split: sum.splits)
    have here: "entry_at fs1 (path_join ws n0) = Some (IsFile (Text t0))"
      using entry_at_writeFile [OF wf, of "path_join ws n0"] by simp
    have "entry_at fs' (path_join ws n0) = entry_at fs1 (path_join ws n0)"
    proof (rule ccontr)
      assume "entry_at fs' (path_join ws n0) \<noteq> entry_at fs1 (path_join ws n0)"
      from write_special_changes [OF rest this] notin show False
        by force
    qed
    with here eq show ?thesis by simp
  qed
qed

lemma special_paths:
  "path_join ws ''.rules'' = ws @ [''.rules'']"
  "path_join ws ''.aiignore'' = ws @ [''.aiignore'']"
  "path_join ws ''memory_bank'' = ws @ [''memory_bank'']"
  by (simp_all add: path_join_def norm_step_def)

lemma special_files_distinct:
  "distinct (map (\<lambda>nt. path_join ws (fst nt)) (special_files p))"
  by (simp add: special_files_def special_paths)

subsection \<open>The whole switch\<close>

lemma write_fields_special:
  "write_fields ws (map (\<lambda>(f, t). (f, if t = [] then Skip else Write t)) xs) fs
     = write_special ws xs fs"
proof (induction xs arbitrary: fs)
  case Nil
  show ?case by simp
next
  case (Cons x xs)
  obtain f t where x: "x = (f, t)" by (cases x)
  show ?case unfolding x using Cons.IH by (simp split: sum.splits)
qed

lemma text_fields_profile:
  "text_fields (Value (profile_json p))
     = map (\<lambda>(f, t). (f, if t = [] then Skip else Write t)) (special_files p)"
  by (simp add: text_fields_def profile_json_def special_files_def)

lemma switch_value_profile:
  "switch_value config now ws (Value (profile_json p)) fs = switch_steps config now ws p fs"
proof -
  have c: "entries_of (field (Value (profile_json p)) ''configs'') = Some (configs p)"
    by (simp add: profile_json_def)
  show ?thesis
    unfolding switch_value_def switch_steps_def text_fields_profile write_fields_special c
    by (simp split: prod.splits option.splits)
qed

lemma switchProfile_found:
  assumes "getProfiles doc = Inr (JObject profiles)" and "map_of profiles n = Some (profile_json profile)"
  shows "switchProfile config now (Some ws) doc n fs =
           (case switch_steps config now ws profile fs of
              (Some e, fs') \<Rightarrow>
                (Some (Error (''Failed to switch to profile '' @ quoted n @ '': '' @ handleError e)), fs')
            | (None, fs') \<Rightarrow> (None, fs'))"
proof -
  have "truthy (Value (profile_json profile))" by (simp add: profile_json_def)
  with assms show ?thesis by (simp add: switchProfile_def switch_value_profile)
qed

lemma switchProfile_success:
  assumes "getProfiles doc = Inr (JObject profiles)" and "map_of profiles n = Some (profile_json profile)"
    and "switchProfile config now (Some ws) doc n fs = (None, fs')"
  shows "switch_steps config now ws profile fs = (None, fs')"
  using assms(3) unfolding switchProfile_found [OF assms(1,2)]
  by (auto split: prod.splits option.splits)

text \<open>
  A name that \<^verbatim>\<open>Object.prototype\<close> provides passes the test \<^verbatim>\<open>!profile\<close> although no
  profile is stored under it: the switch clears the catalogued paths and then fails.
\<close>

lemma switchProfile_inherited_name:
  "map_of sample_profiles ''constructor'' = None
   \<and> switchProfile backup_off sample_now (Some sample_ws) sample_doc ''constructor'' sample_fs
       = (Some (Error (''Failed to switch to profile '' @ quoted ''constructor''
              @ '': Cannot convert undefined or null to object'')),
          Dir [(''home'', Dir [(''proj'', Dir
            [(''README.md'', File (Text ''readme'')),
             (''src'', Dir [(''main.ts'', File (Text ''code''))])])])])
   \<and> switchProfile backup_off sample_now (Some sample_ws) sample_doc ''react'' sample_fs
       = (Some (Error (''Profile '' @ quoted ''react'' @ '' not found'')), sample_fs)"
  by code_simp

lemma switch_steps_success:
  assumes "switch_steps config now ws profile fs = (None, fs')"
  obtains fs1 fs2 where
    "if backupBeforeSwitch config then backupCurrentConfig (Some ws) now fs = (None, fs1) else fs1 = fs"
    "write_configs ws (configs profile) (remove_existing ws all_patterns fs1) = (None, fs2)"
    "write_special ws (special_files profile) fs2 = (None, fs')"
  using assms unfolding switch_steps_def
  by (auto split: prod.splits option.splits if_splits)

section \<open>Properties of the switch\<close>

lemma switch_steps_keeps:
  assumes steps: "switch_steps config now ws profile fs = (None, fs')"
    and ex: "entry_at fs q \<noteq> None"
    and nslash: "CHR ''/'' \<notin> set now"
    and nopat: "\<forall>f\<in>set all_patterns. \<not> prefix (path_join ws f) q"
    and nokey: "\<forall>k\<in>fst ` set (configs profile). q \<noteq> path_join ws k"
    and nores: "\<forall>(n, t)\<in>set (special_files profile). t \<noteq> [] \<longrightarrow> q \<noteq> path_join ws n"
    and nobak: "\<not> prefix (backupDir ws) q"
  shows "entry_at fs' q = entry_at fs q"
proof -
  from steps obtain fs1 fs2 where
    b: "if backupBeforeSwitch config then backupCurrentConfig (Some ws) now fs = (None, fs1) else fs1 = fs"
    and w: "write_configs ws (configs profile) (remove_existing ws all_patterns fs1) = (None, fs2)"
    and s: "write_special ws (special_files profile) fs2 = (None, fs')"
    by (rule switch_steps_success)
  have e1: "entry_at fs1 q = entry_at fs q"
  proof (cases "backupBeforeSwitch config")
    case True
    with b have "backupCurrentConfig (Some ws) now fs = (None, fs1)" by simp
    from confined_existing [OF confined_backupCurrentConfig [OF this nslash] ex nobak]
    show ?thesis .
  next
    case False
    with b show ?thesis by simp
  qed
  have e2: "entry_at (remove_existing ws all_patterns fs1) q = entry_at fs1 q"
    using nopat by (simp add: entry_at_remove_existing)
  have e3: "entry_at fs2 q = entry_at (remove_existing ws all_patterns fs1) q"
  proof (rule ccontr)
    assume "entry_at fs2 q \<noteq> entry_at (remove_existing ws all_patterns fs1) q"
    from write_configs_changes [OF w this] nokey e2 e1 ex show False by auto
  qed
  have e4: "entry_at fs' q = entry_at fs2 q"
  proof (rule ccontr)
    assume "entry_at fs' q \<noteq> entry_at fs2 q"
    from write_special_changes [OF s this] nores show False by auto
  qed
  from e1 e2 e3 e4 show ?thesis by simp
qed

text \<open>
  C9, as stated, fails: \<^verbatim>\<open>.github/workflows/ci.yml\<close> is no catalogued path, no key of the
  incoming profile, no reserved name and not below the backups, yet a successful switch
  deletes it, because \<^verbatim>\<open>fs.remove\<close> takes the catalogued directory \<^verbatim>\<open>.github\<close> with all it
  holds.
\<close>

theorem switch_frame_counterexample:
  "fst (switchProfile backup_off sample_now (Some sample_ws) sample_doc ''surf'' sample_fs) = None
   \<and> ''.github/workflows/ci.yml'' \<notin> set all_patterns
   \<and> ''.github/workflows/ci.yml'' \<notin> fst ` set (configs windsurf_profile)
   \<and> ''.github/workflows/ci.yml'' \<notin> {''.rules'', ''.aiignore'', ''memory_bank''}
   \<and> \<not> prefix (backupDir sample_ws) (path_join sample_ws ''.github/workflows/ci.yml'')
   \<and> entry_at sample_fs (path_join sample_ws ''.github/workflows/ci.yml'') = Some (IsFile (Text ''build''))
   \<and> entry_at (snd (switchProfile backup_off sample_now (Some sample_ws) sample_doc ''surf'' sample_fs))
        (path_join sample_ws ''.github/workflows/ci.yml'') = None"
  by code_simp

text \<open>
  C9, amended: a successful switch leaves every existing path \<open>q\<close> as it was (a file
  with its content, a directory a directory) when \<open>q\<close> is neither a catalogued path nor
  below one, is not the path a key of the incoming profile resolves to, is not one of the
  three reserved files, and is not the backups directory nor below it.
\<close>

theorem switch_frame:
  assumes sw: "switchProfile config now (Some ws) doc n fs = (None, fs')"
    and doc: "getProfiles doc = Inr (JObject profiles)" "map_of profiles n = Some (profile_json profile)"
    and ex: "entry_at fs q \<noteq> None"
    and nslash: "CHR ''/'' \<notin> set now"
    and nopat: "\<forall>f\<in>set all_patterns. \<not> prefix (path_join ws f) q"
    and nokey: "\<forall>k\<in>fst ` set (configs profile). q \<noteq> path_join ws k"
    and nores: "q \<notin> {path_join ws ''.rules'', path_join ws ''.aiignore'', path_join ws ''memory_bank''}"
    and nobak: "\<not> prefix (backupDir ws) q"
  shows "entry_at fs' q = entry_at fs q"
proof -
  from switchProfile_success [OF doc sw]
  have steps: "switch_steps config now ws profile fs = (None, fs')" .
  from nores have "\<forall>(n, t)\<in>set (special_files profile). t \<noteq> [] \<longrightarrow> q \<noteq> path_join ws n"
    by (auto simp: special_files_def)
  from switch_steps_keeps [OF steps ex nslash nopat nokey this nobak] show ?thesis .
qed

theorem switch_frame_witness:
  "fst (switchProfile backup_on sample_now (Some sample_ws) sample_doc ''surf'' sample_fs) = None
   \<and> entry_at sample_fs (sample_ws @ [''src'', ''main.ts'']) = Some (IsFile (Text ''code''))
   \<and> entry_at (snd (switchProfile backup_on sample_now (Some sample_ws) sample_doc ''surf'' sample_fs))
        (sample_ws @ [''src'', ''main.ts'']) = Some (IsFile (Text ''code''))"
proof -
  let ?r = "switchProfile backup_on sample_now (Some sample_ws) sample_doc ''surf'' sample_fs"
  let ?q = "sample_ws @ [''src'', ''main.ts'']"
  have ok: "fst ?r = None" by code_simp
  then have sw: "?r = (None, snd ?r)" by (metis prod.collapse)
  have doc: "getProfiles sample_doc = Inr (JObject sample_profiles)"
    by (simp add: sample_doc_def)
  have look: "map_of sample_profiles ''surf'' = Some (profile_json windsurf_profile)"
    by (simp add: sample_profiles_def)
  have ex: "entry_at sample_fs ?q = Some (IsFile (Text ''code''))" by code_simp
  then have ex': "entry_at sample_fs ?q \<noteq> None" by simp
  have nslash: "CHR ''/'' \<notin> set sample_now" by code_simp
  have nopat: "\<forall>f\<in>set all_patterns. \<not> prefix (path_join sample_ws f) ?q" by code_simp
  have nokey: "\<forall>k\<in>fst ` set (configs windsurf_profile). ?q \<noteq> path_join sample_ws k" by code_simp
  have nores: "?q \<notin> {path_join sample_ws ''.rules'', path_join sample_ws ''.aiignore'',
      path_join sample_ws ''memory_bank''}" by code_simp
  have nobak: "\<not> prefix (backupDir sample_ws) ?q" by code_simp
  from switch_frame [OF sw doc look ex' nslash nopat nokey nores nobak] ok ex
  show ?thesis by simp
qed

lemma confined_outside_child:
  assumes "confined (d @ [x]) fs fs'" and "entry_at fs d \<noteq> None" and "\<not> prefix (d @ [x]) q"
  shows "entry_at fs' q = entry_at fs q"
proof (rule ccontr)
  assume "entry_at fs' q \<noteq> entry_at fs q"
  with assms(1,3) have pq: "prefix q (d @ [x])" and none: "entry_at fs q = None"
    by (auto simp: confined_def)
  from pq assms(3) have qd: "prefix q d" by (auto simp: prefix_snoc)
  with none assms(2) have "q \<noteq> d" by auto
  from entry_at_strict_prefix [OF assms(2) qd this] none show False by simp
qed

lemma backupCurrentConfig_error:
  assumes "backupCurrentConfig (Some ws) now fs = (Some e, fs1)"
  shows "\<exists>m. e = Error (''Failed to create backup: '' @ m)"
  using assms unfolding backupCurrentConfig_def
  by (auto split: sum.splits prod.splits option.splits)

text \<open>
  C3, as stated, fails: the backup is written below the target directory, and a backup
  that fails on a later copy keeps the copies made before. Here an older backup of the same
  name holds a regular file \<^verbatim>\<open>.cursor\<close> where the workspace has a directory: the copy of
  \<^verbatim>\<open>.cursorrules\<close> succeeds, the copy of \<^verbatim>\<open>.cursor\<close> fails, the switch fails, and the target
  directory holds a file it did not hold before.
\<close>

theorem backup_failure_counterexample:
  "fst (backupCurrentConfig (Some sample_ws) sample_now clash_fs)
     = Some (Error ''Failed to create backup: Cannot overwrite non-directory with directory'')
   \<and> fst (switchProfile backup_on sample_now (Some sample_ws) sample_doc ''surf'' clash_fs) \<noteq> None
   \<and> prefix sample_ws (backupPath sample_ws sample_now @ [''.cursorrules''])
   \<and> entry_at clash_fs (backupPath sample_ws sample_now @ [''.cursorrules'']) = None
   \<and> entry_at (snd (switchProfile backup_on sample_now (Some sample_ws) sample_doc ''surf'' clash_fs))
        (backupPath sample_ws sample_now @ [''.cursorrules'']) = Some (IsFile (Text ''old rules''))"
  by code_simp

text \<open>
  C3, amended: with the backup enabled, an existing target directory and a failing backup,
  the switch fails with the backup's error (wrapped in the message of \<open>switchProfile\<close>)
  and ends in the state the backup left: nothing is cleared and nothing is written, and
  every path that is not the backups directory or below it is as it was before.
\<close>

theorem backup_failure_aborts:
  assumes bk: "backupBeforeSwitch config"
    and doc: "getProfiles doc = Inr (JObject profiles)" "map_of profiles n = Some (profile_json profile)"
    and fail: "backupCurrentConfig (Some ws) now fs = (Some e, fs1)"
    and dir: "entry_at fs ws = Some IsDir"
    and nslash: "CHR ''/'' \<notin> set now"
  shows "switchProfile config now (Some ws) doc n fs =
           (Some (Error (''Failed to switch to profile '' @ quoted n @ '': '' @ handleError e)), fs1)
       \<and> (\<exists>m. e = Error (''Failed to create backup: '' @ m))
       \<and> (\<forall>q. \<not> prefix (backupDir ws) q \<longrightarrow> entry_at fs1 q = entry_at fs q)"
proof (intro conjI allI impI)
  show "switchProfile config now (Some ws) doc n fs =
           (Some (Error (''Failed to switch to profile '' @ quoted n @ '': '' @ handleError e)), fs1)"
    unfolding switchProfile_found [OF doc] using bk fail by (simp add: switch_steps_def)
  show "\<exists>m. e = Error (''Failed to create backup: '' @ m)"
    using fail by (rule backupCurrentConfig_error)
next
  fix q
  assume "\<not> prefix (backupDir ws) q"
  moreover have "entry_at fs ws \<noteq> None" using dir by simp
  moreover note confined_backupCurrentConfig [OF fail nslash]
  ultimately show "entry_at fs1 q = entry_at fs q"
    unfolding backupDir_eq by (auto intro: confined_outside_child)
qed

theorem backup_failure_aborts_witness:
  "backupBeforeSwitch backup_on
   \<and> fst (backupCurrentConfig (Some sample_ws) sample_now clash_fs) \<noteq> None
   \<and> fst (switchProfile backup_on sample_now (Some sample_ws) sample_doc ''surf'' clash_fs) \<noteq> None
   \<and> entry_at (snd (switchProfile backup_on sample_now (Some sample_ws) sample_doc ''surf'' clash_fs))
        (sample_ws @ [''.cursorrules'']) = Some (IsFile (Text ''old rules''))
   \<and> entry_at (snd (switchProfile backup_on sample_now (Some sample_ws) sample_doc ''surf'' clash_fs))
        (sample_ws @ [''.windsurfrules'']) = None"
proof -
  let ?b = "backupCurrentConfig (Some sample_ws) sample_now clash_fs"
  let ?e = "Error ''Failed to create backup: Cannot overwrite non-directory with directory''"
  have bk: "backupBeforeSwitch backup_on" by (simp add: backup_on_def)
  have "fst ?b = Some ?e" by code_simp
  then have fail: "?b = (Some ?e, snd ?b)" by (metis prod.collapse)
  have doc: "getProfiles sample_doc = Inr (JObject sample_profiles)"
    by (simp add: sample_doc_def)
  have look: "map_of sample_profiles ''surf'' = Some (profile_json windsurf_profile)"
    by (simp add: sample_profiles_def)
  have dir: "entry_at clash_fs sample_ws = Some IsDir" by code_simp
  have nslash: "CHR ''/'' \<notin> set sample_now" by code_simp
  note res = backup_failure_aborts [OF bk doc look fail dir nslash]
  have n1: "\<not> prefix (backupDir sample_ws) (sample_ws @ [''.cursorrules''])" by code_simp
  have n2: "\<not> prefix (backupDir sample_ws) (sample_ws @ [''.windsurfrules''])" by code_simp
  have o1: "entry_at clash_fs (sample_ws @ [''.cursorrules'']) = Some (IsFile (Text ''old rules''))" by code_simp
  have o2: "entry_at clash_fs (sample_ws @ [''.windsurfrules'']) = None" by code_simp
  from res have sw: "snd (switchProfile backup_on sample_now (Some sample_ws) sample_doc ''surf'' clash_fs) = snd ?b"
    and err: "fst (switchProfile backup_on sample_now (Some sample_ws) sample_doc ''surf'' clash_fs) \<noteq> None"
    by simp_all
  from res have same: "\<not> prefix (backupDir sample_ws) q \<Longrightarrow> entry_at (snd ?b) q = entry_at clash_fs q" for q
    by blast
  have bf: "fst ?b \<noteq> None" using fail by (metis fst_conv option.distinct(1))
  show ?thesis
    unfolding sw using bk bf err same [OF n1] same [OF n2] o1 o2 by simp
qed

lemma confined_remove_existing: "confined ws fs (remove_existing ws all_patterns fs)"
  unfolding confined_def
proof (intro allI impI)
  fix q
  assume "entry_at (remove_existing ws all_patterns fs) q \<noteq> entry_at fs q"
  then obtain f where "f \<in> set all_patterns" and "prefix (path_join ws f) q"
    by (auto simp: entry_at_remove_existing split: if_splits)
  with pattern_join [of f ws] have "prefix ws q"
    by (auto elim: append_prefixD)
  then show "prefix ws q \<or> (prefix q ws \<and> entry_at fs q = None)" ..
qed

lemma confined_write_configs:
  assumes "write_configs ws cfgs fs = (e, fs')"
    and "\<forall>k\<in>fst ` set cfgs. ''..'' \<notin> set (split_path k)"
  shows "confined ws fs fs'"
  unfolding confined_def
proof (intro allI impI)
  fix q
  assume "entry_at fs' q \<noteq> entry_at fs q"
  from write_configs_changes [OF assms(1) this] obtain k where k: "k \<in> fst ` set cfgs"
    and pq: "prefix q (path_join ws k)" and alt: "q = path_join ws k \<or> entry_at fs q = None"
    by blast
  from assms(2) k have under: "prefix ws (path_join ws k)"
    using path_join_no_dotdot [of k ws] by auto
  from alt show "prefix ws q \<or> (prefix q ws \<and> entry_at fs q = None)"
  proof
    assume "q = path_join ws k"
    with under show ?thesis by simp
  next
    assume "entry_at fs q = None"
    with prefix_comparable [OF pq under] show ?thesis by auto
  qed
qed

lemma confined_write_special:
  assumes "write_special ws (special_files p) fs = (e, fs')"
  shows "confined ws fs fs'"
  unfolding confined_def
proof (intro allI impI)
  fix q
  assume "entry_at fs' q \<noteq> entry_at fs q"
  from write_special_changes [OF assms this] have "prefix ws q"
    by (auto simp: special_files_def special_paths)
  then show "prefix ws q \<or> (prefix q ws \<and> entry_at fs q = None)" ..
qed

lemma confined_switch_steps:
  assumes "switch_steps config now ws profile fs = (e, fs')"
    and "\<forall>k\<in>fst ` set (configs profile). ''..'' \<notin> set (split_path k)"
    and "CHR ''/'' \<notin> set now"
  shows "confined ws fs fs'"
proof -
  obtain e1 fs1 where b: "(if backupBeforeSwitch config then backupCurrentConfig (Some ws) now fs else (None, fs)) = (e1, fs1)"
    by (cases "if backupBeforeSwitch config then backupCurrentConfig (Some ws) now fs else (None, fs)")
  have c1: "confined ws fs fs1"
  proof (cases "backupBeforeSwitch config")
    case True
    with b have "backupCurrentConfig (Some ws) now fs = (e1, fs1)" by simp
    from confined_mono [OF confined_backupCurrentConfig [OF this assms(3)]] show ?thesis
      by (simp add: backupDir_eq)
  next
    case False
    with b show ?thesis by (simp add: confined_refl)
  qed
  show ?thesis
  proof (cases e1)
    case (Some err)
    with assms(1) b have "fs' = fs1" by (simp add: switch_steps_def)
    with c1 show ?thesis by simp
  next
    case None
    let ?fs2 = "remove_existing ws all_patterns fs1"
    have c2: "confined ws fs1 ?fs2" by (rule confined_remove_existing)
    obtain e3 fs3 where w: "write_configs ws (configs profile) ?fs2 = (e3, fs3)"
      by (cases "write_configs ws (configs profile) ?fs2")
    have c3: "confined ws ?fs2 fs3" by (rule confined_write_configs [OF w assms(2)])
    show ?thesis
    proof (cases e3)
      case (Some err)
      with assms(1) b None w have "fs' = fs3" by (simp add: switch_steps_def)
      with c1 c2 c3 show ?thesis by (auto intro: confined_trans)
    next
      case n3: None
      with assms(1) b None w have "write_special ws (special_files profile) fs3 = (e, fs')"
        by (simp add: switch_steps_def)
      from confined_write_special [OF this] c1 c2 c3 show ?thesis
        by (auto intro: confined_trans)
    qed
  qed
qed

text \<open>
  C6, as stated, fails: the key \<^verbatim>\<open>../outside.txt\<close> is neither rejected nor rendered
  harmless; \<^verbatim>\<open>path.join\<close> resolves it to the parent of the target directory and the switch
  writes the file there.
\<close>

theorem switch_escapes_counterexample:
  "map_of sample_profiles ''escape'' = Some (profile_json escaping_profile)
   \<and> fst ` set (configs escaping_profile) = {''../outside.txt''}
   \<and> fst (switchProfile backup_off sample_now (Some sample_ws) sample_doc ''escape'' sample_fs) = None
   \<and> path_join sample_ws ''../outside.txt'' = [''home'', ''outside.txt'']
   \<and> \<not> prefix sample_ws (path_join sample_ws ''../outside.txt'')
   \<and> entry_at sample_fs [''home'', ''outside.txt''] = None
   \<and> entry_at (snd (switchProfile backup_off sample_now (Some sample_ws) sample_doc ''escape'' sample_fs))
        [''home'', ''outside.txt''] = Some (IsFile (Text ''x''))"
  by code_simp

text \<open>
  C6, amended: for every stored profile whose keys have no \<^verbatim>\<open>..\<close> segment, every key
  resolves to a path at or below the (existing) target directory, a key with a leading
  \<^verbatim>\<open>/\<close> included, and the switch, whether it succeeds or fails, changes nothing outside
  the target directory. Keys with \<^verbatim>\<open>..\<close> segments are not rejected.
\<close>

theorem switch_stays_inside:
  assumes doc: "getProfiles doc = Inr (JObject profiles)" "map_of profiles n = Some (profile_json profile)"
    and keys: "\<forall>k\<in>fst ` set (configs profile). ''..'' \<notin> set (split_path k)"
    and dir: "entry_at fs ws = Some IsDir"
    and nslash: "CHR ''/'' \<notin> set now"
  shows "(\<forall>k\<in>fst ` set (configs profile). prefix ws (path_join ws k))
       \<and> (\<forall>q. \<not> prefix ws q \<longrightarrow>
            entry_at (snd (switchProfile config now (Some ws) doc n fs)) q = entry_at fs q)"
proof (intro conjI ballI allI impI)
  fix k
  assume "k \<in> fst ` set (configs profile)"
  with keys path_join_no_dotdot [of k ws] show "prefix ws (path_join ws k)" by auto
next
  fix q
  assume out: "\<not> prefix ws q"
  obtain e fs' where st: "switch_steps config now ws profile fs = (e, fs')"
    by (cases "switch_steps config now ws profile fs")
  have "snd (switchProfile config now (Some ws) doc n fs) = fs'"
    unfolding switchProfile_found [OF doc] using st by (cases e) simp_all
  moreover have "entry_at fs ws \<noteq> None" using dir by simp
  ultimately show "entry_at (snd (switchProfile config now (Some ws) doc n fs)) q = entry_at fs q"
    using confined_outside [OF confined_switch_steps [OF st keys nslash] _ out] by simp
qed

theorem switch_stays_inside_witness:
  "fst ` set (configs absolute_profile) = {''/etc/rules.txt''}
   \<and> path_join sample_ws ''/etc/rules.txt'' = sample_ws @ [''etc'', ''rules.txt'']
   \<and> fst (switchProfile backup_on sample_now (Some sample_ws) sample_doc ''abs'' sample_fs) = None
   \<and> entry_at (snd (switchProfile backup_on sample_now (Some sample_ws) sample_doc ''abs'' sample_fs))
        (sample_ws @ [''etc'', ''rules.txt'']) = Some (IsFile (Text ''x''))
   \<and> entry_at (snd (switchProfile backup_on sample_now (Some sample_ws) sample_doc ''abs'' sample_fs))
        [''etc'', ''rules.txt''] = None
   \<and> prefix sample_ws (path_join sample_ws ''/etc/rules.txt'')"
proof -
  have doc: "getProfiles sample_doc = Inr (JObject sample_profiles)"
    by (simp add: sample_doc_def)
  have look: "map_of sample_profiles ''abs'' = Some (profile_json absolute_profile)"
    by (simp add: sample_profiles_def)
  have keys: "\<forall>k\<in>fst ` set (configs absolute_profile). ''..'' \<notin> set (split_path k)" by code_simp
  have dir: "entry_at sample_fs sample_ws = Some IsDir" by code_simp
  have nslash: "CHR ''/'' \<notin> set sample_now" by code_simp
  note res = switch_stays_inside [OF doc look keys dir nslash, of backup_on]
  have k: "fst ` set (configs absolute_profile) = {''/etc/rules.txt''}" by code_simp
  have out: "\<not> prefix sample_ws [''etc'', ''rules.txt'']" by code_simp
  have before: "entry_at sample_fs [''etc'', ''rules.txt''] = None" by code_simp
  from res k have p: "prefix sample_ws (path_join sample_ws ''/etc/rules.txt'')" by simp
  from res out before
  have o: "entry_at (snd (switchProfile backup_on sample_now (Some sample_ws) sample_doc ''abs'' sample_fs))
        [''etc'', ''rules.txt''] = None" by simp
  have j: "path_join sample_ws ''/etc/rules.txt'' = sample_ws @ [''etc'', ''rules.txt'']" by code_simp
  have ok: "fst (switchProfile backup_on sample_now (Some sample_ws) sample_doc ''abs'' sample_fs) = None"
    by code_simp
  have w: "entry_at (snd (switchProfile backup_on sample_now (Some sample_ws) sample_doc ''abs'' sample_fs))
        (sample_ws @ [''etc'', ''rules.txt'']) = Some (IsFile (Text ''x''))" by code_simp
  from k j ok w o p show ?thesis by simp
qed

lemma detect_patterns_iff:
  "detect_patterns cwd fs pats \<longleftrightarrow> (\<exists>pattern\<in>set pats. pathExists fs (path_join cwd pattern))"
  by (induction pats) (auto simp: glob_def)

lemma set_detect_tools:
  "set (detect_tools cwd fs ts) = {t \<in> set ts. detect_patterns cwd fs (CONFIG_MAPPINGS t)}"
  by (induction ts) auto

lemma distinct_detect_tools: "distinct ts \<Longrightarrow> distinct (detect_tools cwd fs ts)"
  by (induction ts) (auto simp: set_detect_tools)

lemma all_tools_complete: "tool \<in> set all_tools" and all_tools_distinct: "distinct all_tools"
  by (cases tool) (simp_all add: all_tools_def)

lemma detect_only_cursorrules:
  assumes "node_at fs ws = Some (Dir [(''.cursorrules'', File c)])"
  shows "detectAIConfigurations (Some ws) fs = [Cursor]"
  using assms
  by (simp add: detectAIConfigurations_def all_tools_def CONFIG_MAPPINGS_def glob_def
      pathExists_def path_join_def norm_step_def node_at_append)

text \<open>
  C5: with a workspace open, \<open>detectAIConfigurations\<close> lists a tool exactly when one of
  the paths of its footprint exists below the workspace, and lists it once; a pattern that
  exists decides its tool whatever patterns follow it (the \<^verbatim>\<open>break\<close>); and on a directory
  that holds only the file \<^verbatim>\<open>.cursorrules\<close> the result is \<^verbatim>\<open>cursor\<close> alone.
\<close>

theorem detect_footprints:
  "(tool \<in> set (detectAIConfigurations (Some ws) fs) \<longleftrightarrow>
      (\<exists>pattern\<in>set (CONFIG_MAPPINGS tool). pathExists fs (path_join ws pattern)))
   \<and> distinct (detectAIConfigurations (Some ws) fs)
   \<and> (pathExists fs (path_join ws pattern) \<longrightarrow> detect_patterns ws fs (pattern # rest))
   \<and> (node_at fs ws = Some (Dir [(''.cursorrules'', File c)]) \<longrightarrow>
        detectAIConfigurations (Some ws) fs = [Cursor])"
proof (intro conjI impI)
  show "tool \<in> set (detectAIConfigurations (Some ws) fs) \<longleftrightarrow>
      (\<exists>pattern\<in>set (CONFIG_MAPPINGS tool). pathExists fs (path_join ws pattern))"
    by (simp add: detectAIConfigurations_def set_detect_tools all_tools_complete detect_patterns_iff)
  show "distinct (detectAIConfigurations (Some ws) fs)"
    by (simp add: detectAIConfigurations_def distinct_detect_tools all_tools_distinct)
next
  assume "pathExists fs (path_join ws pattern)"
  then show "detect_patterns ws fs (pattern # rest)" by (simp add: glob_def)
next
  assume "node_at fs ws = Some (Dir [(''.cursorrules'', File c)])"
  then show "detectAIConfigurations (Some ws) fs = [Cursor]" by (rule detect_only_cursorrules)
qed

theorem detect_footprints_witness:
  "node_at only_cursorrules_fs sample_ws = Some (Dir [(''.cursorrules'', File (Text ''use hooks''))])
   \<and> detectAIConfigurations (Some sample_ws) only_cursorrules_fs = [Cursor]
   \<and> pathExists only_cursorrules_fs (path_join sample_ws ''.cursorrules'')
   \<and> detect_patterns sample_ws only_cursorrules_fs (''.cursorrules'' # [''.cursorignore'', ''.cursor''])
   \<and> Windsurf \<notin> set (detectAIConfigurations (Some sample_ws) only_cursorrules_fs)
   \<and> \<not> (\<exists>pattern\<in>set (CONFIG_MAPPINGS Windsurf). pathExists only_cursorrules_fs (path_join sample_ws pattern))"
proof -
  have n: "node_at only_cursorrules_fs sample_ws = Some (Dir [(''.cursorrules'', File (Text ''use hooks''))])"
    by code_simp
  have e: "pathExists only_cursorrules_fs (path_join sample_ws ''.cursorrules'')" by code_simp
  note res = detect_footprints [of _ sample_ws only_cursorrules_fs "''.cursorrules''"
      "[''.cursorignore'', ''.cursor'']" "Text ''use hooks''"]
  from res [of Cursor] n have d: "detectAIConfigurations (Some sample_ws) only_cursorrules_fs = [Cursor]"
    by blast
  from res [of Cursor] e have s: "detect_patterns sample_ws only_cursorrules_fs (''.cursorrules'' # [''.cursorignore'', ''.cursor''])"
    by blast
  have w: "Windsurf \<notin> set (detectAIConfigurations (Some sample_ws) only_cursorrules_fs)"
    unfolding d by simp
  with res [of Windsurf]
  have nw: "\<not> (\<exists>pattern\<in>set (CONFIG_MAPPINGS Windsurf). pathExists only_cursorrules_fs (path_join sample_ws pattern))"
    by blast
  from n d e s w nw show ?thesis by blast
qed

lemma reserved_not_below_pattern:
  assumes "f \<in> set all_patterns"
  shows "\<not> prefix (path_join ws f) (ws @ [''.rules''])"
    and "\<not> prefix (path_join ws f) (ws @ [''.aiignore''])"
  using assms unfolding all_patterns_def all_tools_def CONFIG_MAPPINGS_def
  by (auto simp: path_join_def norm_step_def)

lemma switch_post_files:
  assumes steps: "switch_steps config now ws profile fs = (None, fs')"
    and d: "distinct (map (\<lambda>kv. path_join ws (fst kv)) (configs profile))"
    and r: "\<forall>k\<in>fst ` set (configs profile).
              path_join ws k \<notin> {path_join ws ''.rules'', path_join ws ''.aiignore'', path_join ws ''memory_bank''}"
    and kv: "(k, v) \<in> set (configs profile)"
  shows "entry_at fs' (path_join ws k) = Some (IsFile (file_content v))"
proof -
  from steps obtain fs1 fs2 where
    w: "write_configs ws (configs profile) (remove_existing ws all_patterns fs1) = (None, fs2)"
    and s: "write_special ws (special_files profile) fs2 = (None, fs')"
    by (rule switch_steps_success)
  have here: "entry_at fs2 (path_join ws k) = Some (IsFile (file_content v))"
    by (rule write_configs_content [OF w d kv])
  have "entry_at fs' (path_join ws k) = entry_at fs2 (path_join ws k)"
  proof (rule ccontr)
    assume "entry_at fs' (path_join ws k) \<noteq> entry_at fs2 (path_join ws k)"
    from write_special_changes [OF s this] r kv show False
      by (force simp: special_files_def)
  qed
  with here show ?thesis by simp
qed

lemma switch_post_special:
  assumes steps: "switch_steps config now ws profile fs = (None, fs')"
    and nt: "(n, t) \<in> set (special_files profile)" and ne: "t \<noteq> []"
  shows "entry_at fs' (path_join ws n) = Some (IsFile (Text t))"
proof -
  from steps obtain fs2 where s: "write_special ws (special_files profile) fs2 = (None, fs')"
    by (rule switch_steps_success)
  from write_special_content [OF s special_files_distinct nt ne] show ?thesis .
qed

lemma switch_post_cleared:
  assumes steps: "switch_steps config now ws profile fs = (None, fs')"
    and f: "f \<in> set all_patterns" and below: "prefix (path_join ws f) q"
    and nokey: "\<forall>k\<in>fst ` set (configs profile). \<not> prefix q (path_join ws k)"
    and nomem: "\<not> (memoryBank profile \<noteq> [] \<and> q = path_join ws ''memory_bank'')"
  shows "entry_at fs' q = None"
proof -
  from steps obtain fs1 fs2 where
    w: "write_configs ws (configs profile) (remove_existing ws all_patterns fs1) = (None, fs2)"
    and s: "write_special ws (special_files profile) fs2 = (None, fs')"
    by (rule switch_steps_success)
  have c: "entry_at (remove_existing ws all_patterns fs1) q = None"
    using f below pattern_join [OF f, of ws] by (auto simp: entry_at_remove_existing)
  have e2: "entry_at fs2 q = None"
  proof (rule ccontr)
    assume "entry_at fs2 q \<noteq> None"
    with c have "entry_at fs2 q \<noteq> entry_at (remove_existing ws all_patterns fs1) q" by simp
    from write_configs_changes [OF w this] nokey show False by auto
  qed
  have "entry_at fs' q = entry_at fs2 q"
  proof (rule ccontr)
    assume "entry_at fs' q \<noteq> entry_at fs2 q"
    from write_special_changes [OF s this] nomem
    have "q = ws @ [''.rules''] \<or> q = ws @ [''.aiignore'']"
      by (auto simp: special_files_def special_paths)
    with below reserved_not_below_pattern [OF f, of ws] show False by auto
  qed
  with e2 show ?thesis by simp
qed

text \<open>
  C1, as stated, fails: after switching to the cursor profile and then to the windsurf
  profile, \<^verbatim>\<open>notes/todo.md\<close>, declared by the first profile only and outside every catalogued
  footprint, is still there, and so are \<^verbatim>\<open>.rules\<close> and \<^verbatim>\<open>.aiignore\<close>, although the second
  profile has no rules and no ignore patterns. The clear step removes catalogued paths only.
\<close>

theorem switch_twice_counterexample:
  "fst (switchProfile backup_off sample_now (Some sample_ws) sample_doc ''react-cursor'' sample_fs) = None
   \<and> fst (switchProfile backup_off sample_now (Some sample_ws) sample_doc ''surf''
        (snd (switchProfile backup_off sample_now (Some sample_ws) sample_doc ''react-cursor'' sample_fs))) = None
   \<and> ''notes/todo.md'' \<in> fst ` set (configs cursor_profile)
   \<and> ''notes/todo.md'' \<notin> fst ` set (configs windsurf_profile)
   \<and> entry_at (snd (switchProfile backup_off sample_now (Some sample_ws) sample_doc ''surf''
        (snd (switchProfile backup_off sample_now (Some sample_ws) sample_doc ''react-cursor'' sample_fs))))
        (path_join sample_ws ''notes/todo.md'') = Some (IsFile (Text ''todo''))
   \<and> rules windsurf_profile = [] \<and> ignorePatterns windsurf_profile = []
   \<and> entry_at (snd (switchProfile backup_off sample_now (Some sample_ws) sample_doc ''surf''
        (snd (switchProfile backup_off sample_now (Some sample_ws) sample_doc ''react-cursor'' sample_fs))))
        (path_join sample_ws ''.rules'') = Some (IsFile (Text ''be brief''))
   \<and> entry_at (snd (switchProfile backup_off sample_now (Some sample_ws) sample_doc ''surf''
        (snd (switchProfile backup_off sample_now (Some sample_ws) sample_doc ''react-cursor'' sample_fs))))
        (path_join sample_ws ''.aiignore'') = Some (IsFile (Text ''dist''))"
  by code_simp

text \<open>
  C1, amended: let the keys of the stored profiles A and B resolve to pairwise different
  paths, none of them a reserved file, and let the switch to A and then the switch to B
  both succeed. Then the directory holds every declared file of B with B's content and
  the reserved file of every non-empty text of B; every path at or below a catalogued
  path is absent unless the writes for B created it, so the declared files of A at or
  below a catalogued path are gone unless B declares them. The declared files of A outside
  every catalogued path (and outside the backups) that B does not overwrite keep the
  content A gave them.
\<close>

theorem switch_twice:
  assumes doc: "getProfiles doc = Inr (JObject profiles)"
    and pa: "map_of profiles a = Some (profile_json pa)" and pb: "map_of profiles b = Some (profile_json pb)"
    and swA: "switchProfile config now (Some ws) doc a fs = (None, fs1)"
    and swB: "switchProfile config' now' (Some ws) doc b fs1 = (None, fs2)"
    and nslash: "CHR ''/'' \<notin> set now'"
    and dA: "distinct (map (\<lambda>kv. path_join ws (fst kv)) (configs pa))"
    and dB: "distinct (map (\<lambda>kv. path_join ws (fst kv)) (configs pb))"
    and rA: "\<forall>k\<in>fst ` set (configs pa).
              path_join ws k \<notin> {path_join ws ''.rules'', path_join ws ''.aiignore'', path_join ws ''memory_bank''}"
    and rB: "\<forall>k\<in>fst ` set (configs pb).
              path_join ws k \<notin> {path_join ws ''.rules'', path_join ws ''.aiignore'', path_join ws ''memory_bank''}"
  shows "(\<forall>(k, v)\<in>set (configs pb). entry_at fs2 (path_join ws k) = Some (IsFile (file_content v)))
       \<and> (\<forall>(n, t)\<in>set (special_files pb). t \<noteq> [] \<longrightarrow>
            entry_at fs2 (path_join ws n) = Some (IsFile (Text t)))
       \<and> (\<forall>f\<in>set all_patterns. \<forall>q. prefix (path_join ws f) q \<longrightarrow>
            (\<forall>k\<in>fst ` set (configs pb). \<not> prefix q (path_join ws k)) \<longrightarrow>
            \<not> (memoryBank pb \<noteq> [] \<and> q = path_join ws ''memory_bank'') \<longrightarrow>
            entry_at fs2 q = None)
       \<and> (\<forall>(k, v)\<in>set (configs pa).
            (\<forall>f\<in>set all_patterns. \<not> prefix (path_join ws f) (path_join ws k)) \<longrightarrow>
            (\<forall>k'\<in>fst ` set (configs pb). path_join ws k \<noteq> path_join ws k') \<longrightarrow>
            \<not> prefix (backupDir ws) (path_join ws k) \<longrightarrow>
            entry_at fs2 (path_join ws k) = Some (IsFile (file_content v)))"
proof -
  from switchProfile_success [OF doc pa swA]
  have stA: "switch_steps config now ws pa fs = (None, fs1)" .
  from switchProfile_success [OF doc pb swB]
  have stB: "switch_steps config' now' ws pb fs1 = (None, fs2)" .
  have c1: "\<forall>(k, v)\<in>set (configs pb). entry_at fs2 (path_join ws k) = Some (IsFile (file_content v))"
    using switch_post_files [OF stB dB rB] by auto
  have c2: "\<forall>(n, t)\<in>set (special_files pb). t \<noteq> [] \<longrightarrow>
            entry_at fs2 (path_join ws n) = Some (IsFile (Text t))"
    using switch_post_special [OF stB] by auto
  have c3: "\<forall>f\<in>set all_patterns. \<forall>q. prefix (path_join ws f) q \<longrightarrow>
            (\<forall>k\<in>fst ` set (configs pb). \<not> prefix q (path_join ws k)) \<longrightarrow>
            \<not> (memoryBank pb \<noteq> [] \<and> q = path_join ws ''memory_bank'') \<longrightarrow>
            entry_at fs2 q = None"
    using switch_post_cleared [OF stB] by blast
  have c4: "entry_at fs2 (path_join ws k) = Some (IsFile (file_content v))"
    if kv: "(k, v) \<in> set (configs pa)"
      and nopat: "\<forall>f\<in>set all_patterns. \<not> prefix (path_join ws f) (path_join ws k)"
      and nokey: "\<forall>k'\<in>fst ` set (configs pb). path_join ws k \<noteq> path_join ws k'"
      and nobak: "\<not> prefix (backupDir ws) (path_join ws k)" for k v
  proof -
    have before: "entry_at fs1 (path_join ws k) = Some (IsFile (file_content v))"
      by (rule switch_post_files [OF stA dA rA kv])
    then have ex: "entry_at fs1 (path_join ws k) \<noteq> None" by simp
    from rA kv have nores: "\<forall>(n, t)\<in>set (special_files pb). t \<noteq> [] \<longrightarrow> path_join ws k \<noteq> path_join ws n"
      by (force simp: special_files_def)
    from switch_steps_keeps [OF stB ex nslash nopat nokey nores nobak] before
    show ?thesis by simp
  qed
  have c4': "\<forall>(k, v)\<in>set (configs pa).
            (\<forall>f\<in>set all_patterns. \<not> prefix (path_join ws f) (path_join ws k)) \<longrightarrow>
            (\<forall>k'\<in>fst ` set (configs pb). path_join ws k \<noteq> path_join ws k') \<longrightarrow>
            \<not> prefix (backupDir ws) (path_join ws k) \<longrightarrow>
            entry_at fs2 (path_join ws k) = Some (IsFile (file_content v))"
  proof (intro ballI)
    fix kv
    assume mem: "kv \<in> set (configs pa)"
    obtain k v where kv: "kv = (k, v)" by (cases kv)
    show "case kv of (k, v) \<Rightarrow>
            (\<forall>f\<in>set all_patterns. \<not> prefix (path_join ws f) (path_join ws k)) \<longrightarrow>
            (\<forall>k'\<in>fst ` set (configs pb). path_join ws k \<noteq> path_join ws k') \<longrightarrow>
            \<not> prefix (backupDir ws) (path_join ws k) \<longrightarrow>
            entry_at fs2 (path_join ws k) = Some (IsFile (file_content v))"
      unfolding kv prod.case using c4 [of k v] mem [unfolded kv] by blast
  qed
  show ?thesis
    by (intro conjI) (fact c1, fact c2, fact c3, fact c4')
qed


theorem switch_twice_witness:
  "fst (switchProfile backup_on sample_now (Some sample_ws) sample_doc ''react-cursor'' sample_fs) = None
   \<and> fst (switchProfile backup_on sample_later (Some sample_ws) sample_doc ''surf''
        (snd (switchProfile backup_on sample_now (Some sample_ws) sample_doc ''react-cursor'' sample_fs))) = None
   \<and> entry_at (snd (switchProfile backup_on sample_later (Some sample_ws) sample_doc ''surf''
        (snd (switchProfile backup_on sample_now (Some sample_ws) sample_doc ''react-cursor'' sample_fs))))
        (path_join sample_ws ''.windsurfrules'') = Some (IsFile (Text ''flow''))
   \<and> entry_at (snd (switchProfile backup_on sample_later (Some sample_ws) sample_doc ''surf''
        (snd (switchProfile backup_on sample_now (Some sample_ws) sample_doc ''react-cursor'' sample_fs))))
        (path_join sample_ws ''.cursorrules'') = None
   \<and> entry_at (snd (switchProfile backup_on sample_later (Some sample_ws) sample_doc ''surf''
        (snd (switchProfile backup_on sample_now (Some sample_ws) sample_doc ''react-cursor'' sample_fs))))
        (path_join sample_ws ''notes/todo.md'') = Some (IsFile (Text ''todo''))"
proof -
  let ?A = "switchProfile backup_on sample_now (Some sample_ws) sample_doc ''react-cursor'' sample_fs"
  let ?B = "switchProfile backup_on sample_later (Some sample_ws) sample_doc ''surf'' (snd ?A)"
  have okA: "fst ?A = None" by code_simp
  then have swA: "?A = (None, snd ?A)" by (metis prod.collapse)
  have okB: "fst ?B = None" by code_simp
  then have swB: "?B = (None, snd ?B)" by (metis prod.collapse)
  have doc: "getProfiles sample_doc = Inr (JObject sample_profiles)"
    by (simp add: sample_doc_def)
  have pa: "map_of sample_profiles ''react-cursor'' = Some (profile_json cursor_profile)"
    by (simp add: sample_profiles_def)
  have pb: "map_of sample_profiles ''surf'' = Some (profile_json windsurf_profile)"
    by (simp add: sample_profiles_def)
  have nslash: "CHR ''/'' \<notin> set sample_later" by code_simp
  have dA: "distinct (map (\<lambda>kv. path_join sample_ws (fst kv)) (configs cursor_profile))" by code_simp
  have dB: "distinct (map (\<lambda>kv. path_join sample_ws (fst kv)) (configs windsurf_profile))" by code_simp
  have rA: "\<forall>k\<in>fst ` set (configs cursor_profile). path_join sample_ws k \<notin>
      {path_join sample_ws ''.rules'', path_join sample_ws ''.aiignore'', path_join sample_ws ''memory_bank''}"
    by code_simp
  have rB: "\<forall>k\<in>fst ` set (configs windsurf_profile). path_join sample_ws k \<notin>
      {path_join sample_ws ''.rules'', path_join sample_ws ''.aiignore'', path_join sample_ws ''memory_bank''}"
    by code_simp
  note res = switch_twice [OF doc pa pb swA swB nslash dA dB rA rB]
  have m1: "(''.windsurfrules'', JString ''flow'') \<in> set (configs windsurf_profile)" by code_simp
  from res m1 have w1: "entry_at (snd ?B) (path_join sample_ws ''.windsurfrules'')
      = Some (IsFile (file_content (JString ''flow'')))" by blast
  have g1: "''.cursorrules'' \<in> set all_patterns" by code_simp
  have g2: "\<forall>k\<in>fst ` set (configs windsurf_profile).
      \<not> prefix (path_join sample_ws ''.cursorrules'') (path_join sample_ws k)" by code_simp
  have g3: "\<not> (memoryBank windsurf_profile \<noteq> [] \<and>
      path_join sample_ws ''.cursorrules'' = path_join sample_ws ''memory_bank'')" by code_simp
  from res have r3: "\<forall>f\<in>set all_patterns. \<forall>q. prefix (path_join sample_ws f) q \<longrightarrow>
      (\<forall>k\<in>fst ` set (configs windsurf_profile). \<not> prefix q (path_join sample_ws k)) \<longrightarrow>
      \<not> (memoryBank windsurf_profile \<noteq> [] \<and> q = path_join sample_ws ''memory_bank'') \<longrightarrow>
      entry_at (snd ?B) q = None" by blast
  from r3 g1 g2 g3 have w2: "entry_at (snd ?B) (path_join sample_ws ''.cursorrules'') = None"
    by (meson prefix_order.refl)
  have h1: "(''notes/todo.md'', JString ''todo'') \<in> set (configs cursor_profile)" by code_simp
  have h2: "\<forall>f\<in>set all_patterns. \<not> prefix (path_join sample_ws f) (path_join sample_ws ''notes/todo.md'')"
    by code_simp
  have h3: "\<forall>k'\<in>fst ` set (configs windsurf_profile). path_join sample_ws ''notes/todo.md'' \<noteq> path_join sample_ws k'"
    by code_simp
  have h4: "\<not> prefix (backupDir sample_ws) (path_join sample_ws ''notes/todo.md'')" by code_simp
  from res have r4: "\<forall>(k, v)\<in>set (configs cursor_profile).
      (\<forall>f\<in>set all_patterns. \<not> prefix (path_join sample_ws f) (path_join sample_ws k)) \<longrightarrow>
      (\<forall>k'\<in>fst ` set (configs windsurf_profile). path_join sample_ws k \<noteq> path_join sample_ws k') \<longrightarrow>
      \<not> prefix (backupDir sample_ws) (path_join sample_ws k) \<longrightarrow>
      entry_at (snd ?B) (path_join sample_ws k) = Some (IsFile (file_content v))" by blast
  from r4 h1 h2 h3 h4 have w3: "entry_at (snd ?B) (path_join sample_ws ''notes/todo.md'')
      = Some (IsFile (file_content (JString ''todo'')))" by blast
  from okA okB w1 w2 w3 show ?thesis by simp
qed

lemma copy_children_seen:
  "copy_children seen ch dch = (e, dch') \<Longrightarrow> nm \<in> set seen \<Longrightarrow> map_of dch' nm = map_of dch nm"
proof (induction ch arbitrary: seen dch)
  case Nil
  then show ?case by simp
next
  case (Cons a rest)
  obtain n0 c0 where a: "a = (n0, c0)" by (cases a)
  show ?case
  proof (cases "n0 \<in> set seen")
    case True
    with Cons.prems a have "copy_children seen rest dch = (e, dch')" by simp
    from Cons.IH [OF this Cons.prems(2)] show ?thesis .
  next
    case False
    then have ne: "nm \<noteq> n0" using Cons.prems(2) by auto
    obtain e0 d0 where cn: "copy_node c0 (map_of dch n0) = (e0, d0)"
      by (cases "copy_node c0 (map_of dch n0)")
    let ?dch1 = "case d0 of None \<Rightarrow> dch | Some n \<Rightarrow> AList.update n0 n dch"
    have m1: "map_of ?dch1 nm = map_of dch nm"
      using ne by (cases d0) (simp_all add: map_of_update_apply)
    show ?thesis
    proof (cases e0)
      case (Some x)
      with Cons.prems(1) a False cn have "dch' = ?dch1" by simp
      with m1 show ?thesis by simp
    next
      case None
      with Cons.prems(1) a False cn have "copy_children (n0 # seen) rest ?dch1 = (e, dch')"
        by simp
      from Cons.IH [OF this] Cons.prems(2) m1 show ?thesis by simp
    qed
  qed
qed

lemma copy_node_file:
  "copy_node src dst = (None, d') \<Longrightarrow> node_at src r = Some (File c) \<Longrightarrow>
     \<exists>d. d' = Some d \<and> node_at d r = Some (File c)"
  and copy_children_file:
  "copy_children seen ch dch = (None, dch') \<Longrightarrow> nm \<notin> set seen \<Longrightarrow> map_of ch nm = Some s \<Longrightarrow>
     node_at s r = Some (File c) \<Longrightarrow> \<exists>d. map_of dch' nm = Some d \<and> node_at d r = Some (File c)"
proof (induction src dst and seen ch dch arbitrary: d' r and dch' nm s r
       rule: copy_node_copy_children.induct)
  case (1 c0 dst)
  then show ?case by (auto simp: node_at_File split: option.splits node.splits if_splits)
next
  case (2 ch dst)
  from "2.prems"(2) obtain nm r' s where r: "r = nm # r'" and s: "map_of ch nm = Some s"
    and f: "node_at s r' = Some (File c)"
    by (cases r) (auto split: option.splits)
  show ?case
  proof (cases dst)
    case None
    with "2.prems"(1) obtain dch' where cc: "copy_children [] ch [] = (None, dch')" and d': "d' = Some (Dir dch')"
      by (auto split: prod.splits)
    have ns: "nm \<notin> set []" by simp
    from "2.IH"(1) [OF None cc ns s f] obtain d where "map_of dch' nm = Some d" "node_at d r' = Some (File c)"
      by auto
    with d' r show ?thesis by simp
  next
    case (Some dn)
    with "2.prems"(1) obtain dch where dn: "dn = Dir dch"
      by (cases dn) auto
    with Some "2.prems"(1) obtain dch' where cc: "copy_children [] ch dch = (None, dch')" and d': "d' = Some (Dir dch')"
      by (auto split: prod.splits)
    have ns: "nm \<notin> set []" by simp
    from "2.IH"(2) [OF Some dn cc ns s f] obtain d where "map_of dch' nm = Some d" "node_at d r' = Some (File c)"
      by auto
    with d' r show ?thesis by simp
  qed
next
  case (3 seen dch)
  then show ?case by simp
next
  case (4 seen n0 c0 rest dch)
  show ?case
  proof (cases "n0 \<in> set seen")
    case True
    with "4.prems"(1) have cc: "copy_children seen rest dch = (None, dch')" by simp
    from True "4.prems"(2,3) have "map_of rest nm = Some s" by (auto split: if_splits)
    from "4.IH"(1) [OF True cc "4.prems"(2) this "4.prems"(4)] show ?thesis .
  next
    case False
    obtain e0 d0 where cn: "copy_node c0 (map_of dch n0) = (e0, d0)"
      by (cases "copy_node c0 (map_of dch n0)")
    let ?dch1 = "case d0 of None \<Rightarrow> dch | Some n \<Rightarrow> AList.update n0 n dch"
    from "4.prems"(1) False cn have e0: "e0 = None"
      and cc: "copy_children (n0 # seen) rest ?dch1 = (None, dch')"
      by (cases e0; simp add: Let_def)+
    show ?thesis
    proof (cases "nm = n0")
      case True
      with "4.prems"(3) have "s = c0" by simp
      with "4.IH"(2) [OF False, of d0 r] cn e0 "4.prems"(4)
      obtain d where d0: "d0 = Some d" and fd: "node_at d r = Some (File c)" by auto
      have "map_of dch' n0 = map_of ?dch1 n0"
        by (rule copy_children_seen [OF cc]) simp
      with d0 fd True show ?thesis by (simp add: map_of_update_apply)
    next
      case ne: False
      with "4.prems"(3) have mr: "map_of rest nm = Some s" by simp
      from ne "4.prems"(2) have ns: "nm \<notin> set (n0 # seen)" by simp
      from "4.IH"(3) [OF False cn [symmetric] refl e0 cc ns mr "4.prems"(4)] show ?thesis .
    qed
  qed
qed


lemma ensureDir_is_dir: "ensureDir p fs = Inr fs' \<Longrightarrow> entry_at fs' p = Some IsDir"
proof (induction p fs arbitrary: fs' rule: ensureDir.induct)
  case (4 s p ch)
  let ?c = "case map_of ch s of None \<Rightarrow> Dir [] | Some c \<Rightarrow> c"
  from "4.prems" obtain c' where c': "ensureDir p ?c = Inr c'" and fs': "fs' = Dir (AList.update s c' ch)"
    by (auto split: sum.splits)
  from "4.IH" [OF c'] fs' show ?case
    by (simp add: entry_at_def map_of_update_apply)
qed (auto simp: entry_at_def)

lemma ensureDir_keeps_existing:
  "ensureDir p fs = Inr fs' \<Longrightarrow> entry_at fs q \<noteq> None \<Longrightarrow> entry_at fs' q = entry_at fs q"
  by (simp add: entry_at_ensureDir)

lemma entry_file_node:
  assumes "entry_at fs (p @ r) = Some (IsFile c)"
  shows "\<exists>s. node_at fs p = Some s \<and> node_at s r = Some (File c)"
proof -
  from assms obtain n where n: "node_at fs (p @ r) = Some n" and k: "kind n = IsFile c"
    by (auto simp: entry_at_def)
  from k have "n = File c" by (cases n) simp_all
  with n show ?thesis by (auto simp: node_at_append split: option.splits)
qed

lemma copy_file_content:
  assumes cp: "copy src dst fs = (None, fs')" and src: "entry_at fs (src @ r) = Some (IsFile c)"
  shows "entry_at fs' (dst @ r) = Some (IsFile c)"
proof -
  from entry_file_node [OF src] obtain s where s: "node_at fs src = Some s"
    and f: "node_at s r = Some (File c)" by blast
  from cp s obtain fs1 d' where ed: "ensureDir (dirname dst) fs = Inr fs1"
    and cn: "copy_node s (node_at fs1 dst) = (None, d')" and fs': "fs' = put_at dst d' fs1"
    by (auto simp: copy_def split: if_splits sum.splits prod.splits)
  from copy_node_file [OF cn f] obtain d where d': "d' = Some d" and fd: "node_at d r = Some (File c)"
    by blast
  show ?thesis
  proof (cases "dst = []")
    case True
    with fs' d' fd show ?thesis by (simp add: entry_at_def)
  next
    case False
    from ensureDir_is_dir [OF ed] have "entry_at fs1 (butlast dst) = Some IsDir"
      by (simp add: dirname_def)
    from node_at_put_at_hit [OF False this, of d' r] fs' d' fd show ?thesis
      by (simp add: entry_at_def)
  qed
qed

lemma backup_step:
  assumes ex: "pathExists fs (path_join ws g)"
    and bf: "backup_files ws bp (g # rest) fs = (None, fs')"
  obtains fs1 fs2 where "ensureDir (dirname (path_join bp g)) fs = Inr fs1"
    and "copy (path_join ws g) (path_join bp g) fs1 = (None, fs2)"
    and "backup_files ws bp rest fs2 = (None, fs')"
  using assms by (auto simp: Let_def split: sum.splits prod.splits option.splits)

lemma backup_files_mirror:
  assumes "backup_files ws bp pats fs = (None, fs')" and "set pats \<subseteq> set all_patterns"
    and "entry_at fs (ws @ y) = Some (IsFile c)" and "entry_at fs (bp @ y) = Some (IsFile c)"
    and "\<not> prefix bp (ws @ y)"
  shows "entry_at fs' (bp @ y) = Some (IsFile c)"
  using assms
proof (induction pats arbitrary: fs)
  case Nil
  then show ?case by simp
next
  case (Cons g rest)
  from Cons.prems(2) have g: "g \<in> set all_patterns" and rest: "set rest \<subseteq> set all_patterns"
    by auto
  show ?case
  proof (cases "pathExists fs (path_join ws g)")
    case False
    with Cons.prems(1) have "backup_files ws bp rest fs = (None, fs')" by simp
    from Cons.IH [OF this rest Cons.prems(3,4,5)] show ?thesis .
  next
    case True
    from True Cons.prems(1) obtain fs1 fs2 where
      ed: "ensureDir (dirname (path_join bp g)) fs = Inr fs1"
      and cp: "copy (path_join ws g) (path_join bp g) fs1 = (None, fs2)"
      and bf: "backup_files ws bp rest fs2 = (None, fs')"
      by (rule backup_step)
    from pattern_join [OF g, of ws] pattern_join [OF g, of bp]
    obtain x where wsg: "path_join ws g = ws @ x" and bpg: "path_join bp g = bp @ x" and x: "x \<noteq> []"
      by auto
    have w1: "entry_at fs1 (ws @ y) = Some (IsFile c)"
      using ensureDir_keeps_existing [OF ed, of "ws @ y"] Cons.prems(3) by simp
    have b1: "entry_at fs1 (bp @ y) = Some (IsFile c)"
      using ensureDir_keeps_existing [OF ed, of "bp @ y"] Cons.prems(4) by simp
    have w2: "entry_at fs2 (ws @ y) = Some (IsFile c)"
    proof -
      have "confined bp fs1 fs2" by (rule confined_copy [OF cp]) (simp add: bpg)
      from confined_existing [OF this _ Cons.prems(5)] w1 show ?thesis by simp
    qed
    have b2: "entry_at fs2 (bp @ y) = Some (IsFile c)"
    proof (cases "prefix x y")
      case True
      then obtain r where y: "y = x @ r" by (auto simp: prefix_def)
      from w1 have "entry_at fs1 (path_join ws g @ r) = Some (IsFile c)" by (simp add: wsg y)
      from copy_file_content [OF cp this] show ?thesis by (simp add: bpg y)
    next
      case False
      have "entry_at fs2 (bp @ y) = entry_at fs1 (bp @ y)"
      proof (rule ccontr)
        assume "entry_at fs2 (bp @ y) \<noteq> entry_at fs1 (bp @ y)"
        from entry_at_copy [OF cp this] False b1 show False by (simp add: bpg)
      qed
      with b1 show ?thesis by simp
    qed
    from Cons.IH [OF bf rest w2 b2 Cons.prems(5)] show ?thesis .
  qed
qed

lemma backup_files_copies:
  assumes "backup_files ws bp pats fs = (None, fs')" and "set pats \<subseteq> set all_patterns"
    and "f \<in> set pats" and "entry_at fs (path_join ws f @ r) = Some (IsFile c)"
    and "\<forall>g\<in>set all_patterns. \<not> prefix bp (path_join ws g) \<and> \<not> prefix (path_join ws g) bp"
  shows "entry_at fs' (path_join bp f @ r) = Some (IsFile c)"
  using assms
proof (induction pats arbitrary: fs)
  case Nil
  then show ?case by simp
next
  case (Cons g rest)
  from Cons.prems(2) have g: "g \<in> set all_patterns" and rest: "set rest \<subseteq> set all_patterns"
    by auto
  from Cons.prems(2,3) have f: "f \<in> set all_patterns" by auto
  from pattern_join [OF f, of ws] pattern_join [OF f, of bp]
  obtain y where wsf: "path_join ws f = ws @ y" and bpf: "path_join bp f = bp @ y"
    by auto
  have nb: "\<not> prefix bp (ws @ y @ r)"
  proof
    assume "prefix bp (ws @ y @ r)"
    moreover have "prefix (ws @ y) (ws @ y @ r)" by simp
    ultimately have "prefix bp (ws @ y) \<or> prefix (ws @ y) bp" by (rule prefix_comparable)
    with Cons.prems(5) f show False by (auto simp: wsf [symmetric])
  qed
  have here: "entry_at fs (ws @ y @ r) = Some (IsFile c)"
    using Cons.prems(4) by (simp add: wsf)
  have "entry_at fs (ws @ y) \<noteq> None"
  proof (cases "r = []")
    case True
    with here show ?thesis by simp
  next
    case False
    from here have "entry_at fs ((ws @ y) @ r) \<noteq> None" by simp
    from entry_at_prefix_dir [OF this False] show ?thesis by simp
  qed
  then have top: "pathExists fs (path_join ws f)"
    by (auto simp: pathExists_def entry_at_def wsf)
  show ?case
  proof (cases "pathExists fs (path_join ws g)")
    case False
    with top have "g \<noteq> f" by auto
    with Cons.prems(3) have fr: "f \<in> set rest" by simp
    from False Cons.prems(1) have "backup_files ws bp rest fs = (None, fs')" by simp
    from Cons.IH [OF this rest fr Cons.prems(4,5)] show ?thesis .
  next
    case True
    from True Cons.prems(1) obtain fs1 fs2 where
      ed: "ensureDir (dirname (path_join bp g)) fs = Inr fs1"
      and cp: "copy (path_join ws g) (path_join bp g) fs1 = (None, fs2)"
      and bf: "backup_files ws bp rest fs2 = (None, fs')"
      by (rule backup_step)
    from pattern_join [OF g, of bp] have under: "prefix bp (path_join bp g)" by auto
    have w1: "entry_at fs1 (ws @ y @ r) = Some (IsFile c)"
      using ensureDir_keeps_existing [OF ed, of "ws @ y @ r"] here by simp
    have w2: "entry_at fs2 (ws @ y @ r) = Some (IsFile c)"
    proof -
      have "confined bp fs1 fs2" by (rule confined_copy [OF cp under])
      from confined_existing [OF this _ nb] w1 show ?thesis by simp
    qed
    show ?thesis
    proof (cases "g = f")
      case True
      from w1 have "entry_at fs1 (path_join ws g @ r) = Some (IsFile c)" by (simp add: wsf True)
      from copy_file_content [OF cp this] have b2: "entry_at fs2 (bp @ y @ r) = Some (IsFile c)"
        by (simp add: bpf True)
      from backup_files_mirror [OF bf rest w2 b2 nb] show ?thesis by (simp add: bpf)
    next
      case False
      with Cons.prems(3) have fr: "f \<in> set rest" by simp
      from w2 have "entry_at fs2 (path_join ws f @ r) = Some (IsFile c)" by (simp add: wsf)
      from Cons.IH [OF bf rest fr this Cons.prems(5)] show ?thesis .
    qed
  qed
qed

lemma pattern_not_in_backup:
  "g \<in> set all_patterns \<Longrightarrow> \<not> prefix (ws @ [''.ai-config-backups'', b]) (path_join ws g)"
  unfolding all_patterns_def all_tools_def CONFIG_MAPPINGS_def
  by (auto simp: path_join_def norm_step_def)


lemma pathExists_entry: "pathExists fs p \<longleftrightarrow> entry_at fs p \<noteq> None"
  by (simp add: pathExists_def entry_at_def)

lemma backup_files_keeps:
  assumes "backup_files ws bp pats fs = (e, fs')" and "set pats \<subseteq> set all_patterns"
    and "entry_at fs q \<noteq> None"
    and "\<forall>g\<in>set pats. pathExists fs (path_join ws g) \<longrightarrow> \<not> prefix (path_join bp g) q"
    and "\<forall>g\<in>set all_patterns. \<not> prefix bp (path_join ws g) \<and> \<not> prefix (path_join ws g) bp"
  shows "entry_at fs' q = entry_at fs q"
  using assms
proof (induction pats arbitrary: fs)
  case Nil
  then show ?case by simp
next
  case (Cons g rest)
  from Cons.prems(2) have g: "g \<in> set all_patterns" and rest: "set rest \<subseteq> set all_patterns"
    by auto
  show ?case
  proof (cases "pathExists fs (path_join ws g)")
    case False
    with Cons.prems(1) have bf: "backup_files ws bp rest fs = (e, fs')" by simp
    from Cons.prems(4) have "\<forall>g\<in>set rest. pathExists fs (path_join ws g) \<longrightarrow> \<not> prefix (path_join bp g) q"
      by simp
    from Cons.IH [OF bf rest Cons.prems(3) this Cons.prems(5)] show ?thesis .
  next
    case True
    with Cons.prems(4) have nq: "\<not> prefix (path_join bp g) q" by simp
    from pattern_join [OF g, of bp] have under: "prefix bp (path_join bp g)" by auto
    show ?thesis
    proof (cases "ensureDir (dirname (path_join bp g)) fs")
      case (Inl err)
      with True Cons.prems(1) show ?thesis by simp
    next
      case (Inr fs1)
      have q1: "entry_at fs1 q = entry_at fs q"
        by (rule ensureDir_keeps_existing [OF Inr Cons.prems(3)])
      have c1: "confined bp fs fs1"
        using pattern_join [OF g, of bp]
        by (intro confined_ensureDir [OF Inr]) (auto simp: dirname_def butlast_append_prefix)
      obtain e2 fs2 where cp: "copy (path_join ws g) (path_join bp g) fs1 = (e2, fs2)"
        by (cases "copy (path_join ws g) (path_join bp g) fs1")
      have q2: "entry_at fs2 q = entry_at fs1 q"
      proof (rule ccontr)
        assume "entry_at fs2 q \<noteq> entry_at fs1 q"
        from entry_at_copy [OF cp this] nq q1 Cons.prems(3) show False by simp
      qed
      have c2: "confined bp fs fs2"
        by (rule confined_trans [OF c1 confined_copy [OF cp under]])
      show ?thesis
      proof (cases e2)
        case (Some err)
        with True Inr cp Cons.prems(1) have "fs' = fs2" by simp
        with q1 q2 show ?thesis by simp
      next
        case None
        with True Inr cp Cons.prems(1) have bf: "backup_files ws bp rest fs2 = (e, fs')" by simp
        have same: "entry_at fs2 (path_join ws h) = entry_at fs (path_join ws h)"
          if "h \<in> set all_patterns" for h
        proof (rule ccontr)
          assume "entry_at fs2 (path_join ws h) \<noteq> entry_at fs (path_join ws h)"
          with c2 Cons.prems(5) that show False by (auto simp: confined_def)
        qed
        have "\<forall>g\<in>set rest. pathExists fs2 (path_join ws g) \<longrightarrow> \<not> prefix (path_join bp g) q"
        proof (intro ballI impI)
          fix h
          assume h: "h \<in> set rest" and "pathExists fs2 (path_join ws h)"
          moreover from h rest have "h \<in> set all_patterns" by auto
          then have "entry_at fs2 (path_join ws h) = entry_at fs (path_join ws h)" by (rule same)
          ultimately have "pathExists fs (path_join ws h)"
            by (simp add: pathExists_entry)
          with Cons.prems(4) h show "\<not> prefix (path_join bp h) q" by simp
        qed
        from Cons.IH [OF bf rest _ this Cons.prems(5)] q1 q2 Cons.prems(3) show ?thesis by simp
      qed
    qed
  qed
qed

lemma pattern_not_above_backup:
  "g \<in> set all_patterns \<Longrightarrow> \<not> prefix (path_join ws g) (ws @ [''.ai-config-backups'', b])"
  unfolding all_patterns_def all_tools_def CONFIG_MAPPINGS_def
  by (auto simp: path_join_def norm_step_def)

lemma backupCurrentConfig_success:
  assumes "backupCurrentConfig (Some ws) now fs = (None, fs')"
  obtains fs1 where "ensureDir (backupDir ws) fs = Inr fs1"
    and "backup_files ws (backupPath ws now) all_patterns fs1 = (None, fs')"
  using assms unfolding backupCurrentConfig_def
  by (auto split: sum.splits prod.splits option.splits)

text \<open>
  A backup step that runs on the backup directory of an earlier switch can also fail. The
  workspace holds the directory \<^verbatim>\<open>memory_bank\<close>; the first switch backs it up and writes
  the file \<^verbatim>\<open>memory_bank\<close> of the profile; the second, at the same clock value, copies that
  file onto the directory of the first backup, which \<^verbatim>\<open>fs.copy\<close> refuses, and changes
  nothing.
\<close>

lemma backup_collision_kind_clash:
  "fst (switchProfile backup_on sample_now (Some sample_ws) bank_doc ''bank'' bank_fs) = None
   \<and> switchProfile backup_on sample_now (Some sample_ws) bank_doc ''bank''
         (snd (switchProfile backup_on sample_now (Some sample_ws) bank_doc ''bank'' bank_fs))
       = (Some (Error (''Failed to switch to profile '' @ quoted ''bank''
              @ '': Failed to create backup: Cannot overwrite directory with non-directory'')),
          snd (switchProfile backup_on sample_now (Some sample_ws) bank_doc ''bank'' bank_fs))"
  by code_simp

text \<open>
  C4, as stated, fails: two switches with the backup enabled read the same clock value.
  The first backs up \<^verbatim>\<open>.cursorrules\<close> with the text found in the workspace; the second
  finds the backup directory of that name in place, does not fail, and writes the text the
  first switch installed over the first backup's copy.
\<close>

theorem backup_collision_counterexample:
  "fst (switchProfile backup_on sample_now (Some sample_ws) sample_doc ''react-cursor'' sample_fs) = None
   \<and> entry_at after_first (backupPath sample_ws sample_now) = Some IsDir
   \<and> entry_at after_first (path_join (backupPath sample_ws sample_now) ''.cursorrules'')
        = Some (IsFile (Text ''old rules''))
   \<and> fst (switchProfile backup_on sample_now (Some sample_ws) sample_doc ''surf'' after_first) = None
   \<and> entry_at (snd (switchProfile backup_on sample_now (Some sample_ws) sample_doc ''surf'' after_first))
        (path_join (backupPath sample_ws sample_now) ''.cursorrules'')
        = Some (IsFile (Text ''use hooks''))"
  by code_simp

text \<open>
  C4, amended: a backup step is not stopped by a backup directory of the same name left
  by an earlier switch; it writes into that directory. Whenever the step succeeds, every
  regular file at or below a catalogued path of the workspace is in the backup directory
  under its relative path with the workspace's content, whatever the directory held there
  before, and every existing entry that is not at or below a path copied in this step is
  kept as it was (so what an earlier backup of the same name left is overwritten or merged,
  not protected).
\<close>

theorem backup_reuses_directory:
  assumes ok: "backupCurrentConfig (Some ws) now fs = (None, fs')"
    and nslash: "CHR ''/'' \<notin> set now"
  shows "(\<forall>f\<in>set all_patterns. \<forall>r c. entry_at fs (path_join ws f @ r) = Some (IsFile c) \<longrightarrow>
            entry_at fs' (path_join (backupPath ws now) f @ r) = Some (IsFile c))
       \<and> (\<forall>q. entry_at fs q \<noteq> None \<longrightarrow>
            (\<forall>g\<in>set all_patterns. pathExists fs (path_join ws g) \<longrightarrow>
               \<not> prefix (path_join (backupPath ws now) g) q) \<longrightarrow>
            entry_at fs' q = entry_at fs q)"
proof -
  let ?bp = "backupPath ws now"
  from ok obtain fs1 where ed: "ensureDir (backupDir ws) fs = Inr fs1"
    and bf: "backup_files ws ?bp all_patterns fs1 = (None, fs')"
    by (rule backupCurrentConfig_success)
  have bp: "?bp = ws @ [''.ai-config-backups'', ''backup-'' @ backup_stamp now]"
    by (simp add: backupPath_eq [OF nslash] backupDir_eq)
  have apart: "\<forall>g\<in>set all_patterns. \<not> prefix ?bp (path_join ws g) \<and> \<not> prefix (path_join ws g) ?bp"
    unfolding bp using pattern_not_in_backup pattern_not_above_backup by blast
  have pat_same: "entry_at fs1 (path_join ws g) = entry_at fs (path_join ws g)"
    if "g \<in> set all_patterns" for g
  proof (rule ccontr)
    assume "entry_at fs1 (path_join ws g) \<noteq> entry_at fs (path_join ws g)"
    with entry_at_ensureDir [OF ed, of "path_join ws g"]
    have "prefix (path_join ws g) (backupDir ws)" by (auto split: if_splits)
    moreover have "prefix (backupDir ws) ?bp"
      unfolding bp backupDir_eq by simp
    ultimately have "prefix (path_join ws g) ?bp"
      by (rule prefix_order.trans)
    with apart that show False by blast
  qed
  have p1: "entry_at fs' (path_join ?bp f @ r) = Some (IsFile c)"
    if "f \<in> set all_patterns" and "entry_at fs (path_join ws f @ r) = Some (IsFile c)" for f r c
  proof -
    from that(2) have "entry_at fs (path_join ws f @ r) \<noteq> None" by simp
    from ensureDir_keeps_existing [OF ed this] that(2)
    have "entry_at fs1 (path_join ws f @ r) = Some (IsFile c)" by simp
    from backup_files_copies [OF bf subset_refl that(1) this apart] show ?thesis .
  qed
  have p2: "entry_at fs' q = entry_at fs q"
    if ex: "entry_at fs q \<noteq> None"
      and nre: "\<forall>g\<in>set all_patterns. pathExists fs (path_join ws g) \<longrightarrow> \<not> prefix (path_join ?bp g) q" for q
  proof -
    have q1: "entry_at fs1 q = entry_at fs q" by (rule ensureDir_keeps_existing [OF ed ex])
    with ex have ex1: "entry_at fs1 q \<noteq> None" by simp
    have "\<forall>g\<in>set all_patterns. pathExists fs1 (path_join ws g) \<longrightarrow> \<not> prefix (path_join ?bp g) q"
      using nre pat_same by (auto simp: pathExists_entry)
    from backup_files_keeps [OF bf subset_refl ex1 this apart] q1 show ?thesis by simp
  qed
  from p1 p2 show ?thesis by blast
qed

theorem backup_reuses_directory_witness:
  "fst (backupCurrentConfig (Some sample_ws) sample_now after_first) = None
   \<and> entry_at after_first (backupPath sample_ws sample_now) = Some IsDir
   \<and> entry_at after_first (path_join (backupPath sample_ws sample_now) ''.cursorrules'')
        = Some (IsFile (Text ''old rules''))
   \<and> entry_at (snd (backupCurrentConfig (Some sample_ws) sample_now after_first))
        (path_join (backupPath sample_ws sample_now) ''.cursorrules'') = Some (IsFile (Text ''use hooks''))
   \<and> entry_at (snd (backupCurrentConfig (Some sample_ws) sample_now after_first))
        (path_join (backupPath sample_ws sample_now) ''.github/workflows/ci.yml'')
        = Some (IsFile (Text ''build''))"
proof -
  let ?b = "backupCurrentConfig (Some sample_ws) sample_now after_first"
  let ?bp = "backupPath sample_ws sample_now"
  have okb: "fst ?b = None" by code_simp
  then have ok: "?b = (None, snd ?b)" by (metis prod.collapse)
  have nslash: "CHR ''/'' \<notin> set sample_now" by code_simp
  note res = backup_reuses_directory [OF ok nslash]
  have f: "''.cursorrules'' \<in> set all_patterns" by code_simp
  have c: "entry_at after_first (path_join sample_ws ''.cursorrules'' @ []) = Some (IsFile (Text ''use hooks''))"
    by code_simp
  from res f c have "entry_at (snd ?b) (path_join ?bp ''.cursorrules'' @ []) = Some (IsFile (Text ''use hooks''))"
    by blast
  then have w1: "entry_at (snd ?b) (path_join ?bp ''.cursorrules'') = Some (IsFile (Text ''use hooks''))"
    by simp
  have old: "entry_at after_first (path_join ?bp ''.cursorrules'') = Some (IsFile (Text ''old rules''))"
    by code_simp
  have dir: "entry_at after_first ?bp = Some IsDir" by code_simp
  have k: "entry_at after_first (path_join ?bp ''.github/workflows/ci.yml'') = Some (IsFile (Text ''build''))"
    by code_simp
  then have kex: "entry_at after_first (path_join ?bp ''.github/workflows/ci.yml'') \<noteq> None" by simp
  have nre: "\<forall>g\<in>set all_patterns. pathExists after_first (path_join sample_ws g) \<longrightarrow>
      \<not> prefix (path_join ?bp g) (path_join ?bp ''.github/workflows/ci.yml'')" by code_simp
  from res kex nre have "entry_at (snd ?b) (path_join ?bp ''.github/workflows/ci.yml'')
      = entry_at after_first (path_join ?bp ''.github/workflows/ci.yml'')" by blast
  with k have w2: "entry_at (snd ?b) (path_join ?bp ''.github/workflows/ci.yml'') = Some (IsFile (Text ''build''))"
    by simp
  from okb dir old w1 w2 show ?thesis by simp
qed

end
